theory Spec2Isabelle
  imports Main "HOL-Library.Code_Target_Nat"
begin

section \<open>JavaScript strings\<close>

text \<open>
  A JavaScript string is a sequence of UTF-16 code units. The regular expressions of
  \<^verbatim>\<open>script.js\<close> carry no \<^verbatim>\<open>u\<close> flag, so they, like \<^verbatim>\<open>trim\<close>,
  \<^verbatim>\<open>startsWith\<close>, \<^verbatim>\<open>split\<close> and \<^verbatim>\<open>replace\<close>, work on code units.
  A code unit is a natural number here; \<open>js\<close> turns an ASCII literal into code units.
\<close>

type_synonym jsstring = "nat list"

definition js :: "string \<Rightarrow> jsstring" where
  "js s = map of_char s"

text \<open>The code units of WhiteSpace and LineTerminator (ECMA-262 12.2, 12.3): what
  \<^verbatim>\<open>trim\<close> removes and what \<^verbatim>\<open>\s\<close> matches.\<close>

definition isLineTerminator :: "nat \<Rightarrow> bool" where
  "isLineTerminator c \<longleftrightarrow> c = 10 \<or> c = 13 \<or> c = 8232 \<or> c = 8233"

definition isWhiteSpace :: "nat \<Rightarrow> bool" where
  "isWhiteSpace c \<longleftrightarrow>
     c = 9 \<or> c = 11 \<or> c = 12 \<or> c = 32 \<or> c = 160 \<or> c = 5760 \<or>
     (8192 \<le> c \<and> c \<le> 8202) \<or> c = 8239 \<or> c = 8287 \<or> c = 12288 \<or> c = 65279 \<or>
     isLineTerminator c"

definition dropTrail :: "(nat \<Rightarrow> bool) \<Rightarrow> jsstring \<Rightarrow> jsstring" where
  "dropTrail P s = rev (dropWhile P (rev s))"

definition trim :: "jsstring \<Rightarrow> jsstring" where
  "trim s = dropTrail isWhiteSpace (dropWhile isWhiteSpace s)"

definition startsWith :: "jsstring \<Rightarrow> jsstring \<Rightarrow> bool" where
  "startsWith s p \<longleftrightarrow> take (length p) s = p"

fun includesStr :: "jsstring \<Rightarrow> jsstring \<Rightarrow> bool" where
  "includesStr [] p = (p = [])"
| "includesStr (c # cs) p = (startsWith (c # cs) p \<or> includesStr cs p)"

fun indexOf :: "jsstring \<Rightarrow> jsstring \<Rightarrow> nat option" where
  "indexOf [] p = (if p = [] then Some 0 else None)"
| "indexOf (c # cs) p =
     (if startsWith (c # cs) p then Some 0 else map_option Suc (indexOf cs p))"

text \<open>\<^verbatim>\<open>s.split(sep)\<close> for a separator that is not empty (the source splits on
  \<^verbatim>\<open>'\n'\<close> and \<^verbatim>\<open>'\n\n'\<close>); \<open>acc\<close> is the piece being read.\<close>

fun split_from :: "jsstring \<Rightarrow> jsstring \<Rightarrow> jsstring \<Rightarrow> jsstring list" where
  "split_from sep acc [] = [acc]"
| "split_from sep acc (c # cs) =
     (if sep \<noteq> [] \<and> startsWith (c # cs) sep
      then acc # split_from sep [] (drop (length sep - 1) cs)
      else split_from sep (acc @ [c]) cs)"

definition split :: "jsstring \<Rightarrow> jsstring \<Rightarrow> jsstring list" where
  "split s sep = split_from sep [] s"

fun join :: "jsstring list \<Rightarrow> jsstring \<Rightarrow> jsstring" where
  "join [] sep = []"
| "join [x] sep = x"
| "join (x # y # ys) sep = x @ sep @ join (y # ys) sep"

text \<open>
  \<^verbatim>\<open>toLowerCase\<close>. The mapping is exact on ASCII and on Latin-1, and on the two code
  points outside Latin-1 whose lower case holds an ASCII letter: U+0130 (to \<^verbatim>\<open>i\<close>
  and U+0307) and U+212A KELVIN SIGN (to \<^verbatim>\<open>k\<close>). The Unicode tables for the
  remaining code points are not part of the repository; those code units are left as
  they are. Their lower case is never an ASCII, white-space or control code unit, which
  are the only code units the tests of \<^verbatim>\<open>sanitizeUrl\<close> look at.
\<close>

definition lowerUnit :: "nat \<Rightarrow> jsstring" where
  "lowerUnit c =
     (if 65 \<le> c \<and> c \<le> 90 then [c + 32]
      else if 192 \<le> c \<and> c \<le> 222 \<and> c \<noteq> 215 then [c + 32]
      else if c = 304 then [105, 775]
      else if c = 8490 then [107]
      else [c])"

definition toLowerCase :: "jsstring \<Rightarrow> jsstring" where
  "toLowerCase s = concat (map lowerUnit s)"

subsection \<open>String.prototype.replace with a string pattern\<close>

text \<open>
  \<^verbatim>\<open>s.replace(search, repl)\<close> with two strings replaces the first occurrence of
  \<open>search\<close> only, and the replacement text is a template (ECMA-262 GetSubstitution):
  \<^verbatim>\<open>$$\<close> is a dollar sign, \<^verbatim>\<open>$&\<close> the matched text, \<^verbatim>\<open>$`\<close> the text before
  the match and \<^verbatim>\<open>$'\<close> the text after it. There is no capture, so \<^verbatim>\<open>$1\<close> stays
  as it is.
\<close>

fun getSubstitution :: "jsstring \<Rightarrow> jsstring \<Rightarrow> jsstring \<Rightarrow> jsstring \<Rightarrow> jsstring" where
  "getSubstitution m b a (c # d # r) =
     (if c = 36 then
        (if d = 36 then 36 # getSubstitution m b a r
         else if d = 38 then m @ getSubstitution m b a r
         else if d = 96 then b @ getSubstitution m b a r
         else if d = 39 then a @ getSubstitution m b a r
         else 36 # getSubstitution m b a (d # r))
      else c # getSubstitution m b a (d # r))"
| "getSubstitution m b a r = r"

definition replaceString :: "jsstring \<Rightarrow> jsstring \<Rightarrow> jsstring \<Rightarrow> jsstring" where
  "replaceString s search repl =
     (case indexOf s search of
        None \<Rightarrow> s
      | Some i \<Rightarrow>
          (let preceding = take i s; following = drop (i + length search) s
           in preceding @ getSubstitution search preceding following repl @ following))"

section \<open>decodeURIComponent\<close>

text \<open>
  ECMA-262 Decode with an empty set of reserved characters. Every \<^verbatim>\<open>%\<close> must start an
  escape \<^verbatim>\<open>%XX\<close>; an octet below 128 is the code unit itself; an octet with
  \<open>n\<close> leading one bits (\<open>n\<close> from 2 to 4) starts a UTF-8 sequence of \<open>n\<close>
  escapes, which must be the UTF-8 encoding of a code point. The URIError that the
  built-in throws is the result \<open>None\<close>.
\<close>

definition hexDigit :: "nat \<Rightarrow> nat option" where
  "hexDigit c =
     (if 48 \<le> c \<and> c \<le> 57 then Some (c - 48)
      else if 65 \<le> c \<and> c \<le> 70 then Some (c - 55)
      else if 97 \<le> c \<and> c \<le> 102 then Some (c - 87)
      else None)"

fun parseHexOctet :: "jsstring \<Rightarrow> nat option" where
  "parseHexOctet (a # b # r) =
     (case hexDigit a of
        None \<Rightarrow> None
      | Some x \<Rightarrow> (case hexDigit b of None \<Rightarrow> None | Some y \<Rightarrow> Some (16 * x + y)))"
| "parseHexOctet r = None"

definition leadingOnes :: "nat \<Rightarrow> nat" where
  "leadingOnes b =
     (if b < 128 then 0 else if b < 192 then 1 else if b < 224 then 2
      else if b < 240 then 3 else if b < 248 then 4 else 5)"

text \<open>The \<open>k\<close> continuation escapes \<^verbatim>\<open>%XX\<close> at the head of the string.\<close>

fun continuationOctets :: "nat \<Rightarrow> jsstring \<Rightarrow> nat list option" where
  "continuationOctets k s =
     (if k = 0 then Some []
      else case s of
             [] \<Rightarrow> None
           | c # cs \<Rightarrow>
               (if c \<noteq> 37 then None
                else case parseHexOctet cs of
                       None \<Rightarrow> None
                     | Some b \<Rightarrow> map_option ((#) b) (continuationOctets (k - 1) (drop 2 cs))))"

definition isContinuation :: "nat \<Rightarrow> bool" where
  "isContinuation b \<longleftrightarrow> 128 \<le> b \<and> b < 192"

text \<open>The code point of a well-formed UTF-8 sequence of two to four octets: no
  overlong form, no surrogate, nothing above U+10FFFF.\<close>

fun utf8CodePoint :: "nat list \<Rightarrow> nat option" where
  "utf8CodePoint [b0, b1] =
     (let v = (b0 - 192) * 64 + (b1 - 128)
      in if isContinuation b1 \<and> 128 \<le> v then Some v else None)"
| "utf8CodePoint [b0, b1, b2] =
     (let v = (b0 - 224) * 4096 + (b1 - 128) * 64 + (b2 - 128)
      in if isContinuation b1 \<and> isContinuation b2 \<and> 2048 \<le> v \<and> \<not> (55296 \<le> v \<and> v \<le> 57343)
         then Some v else None)"
| "utf8CodePoint [b0, b1, b2, b3] =
     (let v = (b0 - 240) * 262144 + (b1 - 128) * 4096 + (b2 - 128) * 64 + (b3 - 128)
      in if isContinuation b1 \<and> isContinuation b2 \<and> isContinuation b3 \<and>
            65536 \<le> v \<and> v \<le> 1114111
         then Some v else None)"
| "utf8CodePoint bs = None"

definition utf16Encode :: "nat \<Rightarrow> jsstring" where
  "utf16Encode v =
     (if v < 65536 then [v]
      else [55296 + (v - 65536) div 1024, 56320 + (v - 65536) mod 1024])"

fun decodeURIComponent :: "jsstring \<Rightarrow> jsstring option" where
  "decodeURIComponent [] = Some []"
| "decodeURIComponent (c # cs) =
     (if c \<noteq> 37 then map_option ((#) c) (decodeURIComponent cs)
      else case parseHexOctet cs of
             None \<Rightarrow> None
           | Some b \<Rightarrow>
               (let n = leadingOnes b in
                if n = 0 then map_option ((#) b) (decodeURIComponent (drop 2 cs))
                else if n = 1 \<or> 4 < n then None
                else case continuationOctets (n - 1) (drop 2 cs) of
                       None \<Rightarrow> None
                     | Some octets \<Rightarrow>
                         (case utf8CodePoint (b # octets) of
                            None \<Rightarrow> None
                          | Some v \<Rightarrow>
                              map_option ((@) (utf16Encode v))
                                (decodeURIComponent (drop (3 * (n - 1)) (drop 2 cs))))))"

section \<open>Regular expressions\<close>

text \<open>
  The regular expressions of the source, as a datatype, with the backtracking semantics of
  ECMA-262 (22.2.2): a matcher takes the state and a continuation, and a quantifier or an
  alternative whose continuation fails tries its next choice. Every quantifier of the
  source stands on a single-character class, so \<open>Many p lo hi greedy\<close> consumes
  \<open>n\<close> code units that satisfy \<open>p\<close>, with \<open>lo \<le> n\<close> (and \<open>n \<le> h\<close> when
  \<open>hi = Some h\<close>), trying the largest \<open>n\<close> first when greedy and the smallest first
  when lazy. No group of the source stands inside a quantifier or inside another group,
  so the captures are collected in the order in which the groups close.

  The state holds the code unit before the current position (\<open>None\<close> at the start of
  the input), the rest of the input and the captures so far. \<open>Bol m\<close> and \<open>Eol m\<close>
  are \<^verbatim>\<open>^\<close> and \<^verbatim>\<open>$\<close>, \<open>m\<close> being the \<^verbatim>\<open>m\<close> flag.
\<close>

datatype re =
    Eps
  | One "nat \<Rightarrow> bool"
  | Many "nat \<Rightarrow> bool" nat "nat option" bool
  | Bol bool
  | Eol bool
  | Cat re re
  | Alt re re
  | Grp re

type_synonym mstate = "nat option \<times> jsstring \<times> jsstring list"

fun first_some :: "('a \<Rightarrow> 'b option) \<Rightarrow> 'a list \<Rightarrow> 'b option" where
  "first_some f [] = None"
| "first_some f (x # xs) = (case f x of Some r \<Rightarrow> Some r | None \<Rightarrow> first_some f xs)"

definition counts :: "nat \<Rightarrow> nat option \<Rightarrow> bool \<Rightarrow> nat \<Rightarrow> nat list" where
  "counts lo hi greedy avail =
     (let mx = (case hi of None \<Rightarrow> avail | Some h \<Rightarrow> min h avail)
      in if greedy then rev [lo ..< Suc mx] else [lo ..< Suc mx])"

definition advance :: "nat option \<Rightarrow> jsstring \<Rightarrow> nat \<Rightarrow> nat option" where
  "advance prev s n = (if n = 0 then prev else Some (s ! (n - 1)))"

fun rmatch :: "re \<Rightarrow> mstate \<Rightarrow> (mstate \<Rightarrow> mstate option) \<Rightarrow> mstate option" where
  "rmatch Eps st k = k st"
| "rmatch (One p) (prev, s, caps) k =
     (case s of [] \<Rightarrow> None | c # cs \<Rightarrow> if p c then k (Some c, cs, caps) else None)"
| "rmatch (Many p lo hi greedy) (prev, s, caps) k =
     first_some (\<lambda>n. k (advance prev s n, drop n s, caps))
       (counts lo hi greedy (length (takeWhile p s)))"
| "rmatch (Bol m) (prev, s, caps) k =
     (case prev of
        None \<Rightarrow> k (prev, s, caps)
      | Some c \<Rightarrow> if m \<and> isLineTerminator c then k (prev, s, caps) else None)"
| "rmatch (Eol m) (prev, s, caps) k =
     (case s of
        [] \<Rightarrow> k (prev, s, caps)
      | c # cs \<Rightarrow> if m \<and> isLineTerminator c then k (prev, s, caps) else None)"
| "rmatch (Cat a b) st k = rmatch a st (\<lambda>st'. rmatch b st' k)"
| "rmatch (Alt a b) st k =
     (case rmatch a st k of Some r \<Rightarrow> Some r | None \<Rightarrow> rmatch b st k)"
| "rmatch (Grp a) (prev, s, caps) k =
     rmatch a (prev, s, caps)
       (\<lambda>(prev', s', caps'). k (prev', s', caps' @ [take (length s - length s') s]))"

text \<open>A literal, a sequence, and the classes \<^verbatim>\<open>\s\<close>, \<^verbatim>\<open>\d\<close> and \<^verbatim>\<open>.\<close>.\<close>

fun lit :: "jsstring \<Rightarrow> re" where
  "lit [] = Eps"
| "lit [c] = One (\<lambda>x. x = c)"
| "lit (c # cs) = Cat (One (\<lambda>x. x = c)) (lit cs)"

fun cats :: "re list \<Rightarrow> re" where
  "cats [] = Eps"
| "cats [r] = r"
| "cats (r # rs) = Cat r (cats rs)"

definition isDigit :: "nat \<Rightarrow> bool" where
  "isDigit c \<longleftrightarrow> 48 \<le> c \<and> c \<le> 57"

definition isDot :: "nat \<Rightarrow> bool" where
  "isDot c \<longleftrightarrow> \<not> isLineTerminator c"

definition isOneOf :: "string \<Rightarrow> nat \<Rightarrow> bool" where
  "isOneOf cs c \<longleftrightarrow> c \<in> set (js cs)"

definition isNot :: "string \<Rightarrow> nat \<Rightarrow> bool" where
  "isNot cs c \<longleftrightarrow> c \<notin> set (js cs)"

definition isAny :: "nat \<Rightarrow> bool" where
  "isAny c \<longleftrightarrow> True"

definition isAlpha :: "nat \<Rightarrow> bool" where
  "isAlpha c \<longleftrightarrow> (97 \<le> c \<and> c \<le> 122) \<or> (65 \<le> c \<and> c \<le> 90)"

definition isAlnum :: "nat \<Rightarrow> bool" where
  "isAlnum c \<longleftrightarrow> isAlpha c \<or> isDigit c"

definition str :: "string \<Rightarrow> re" where
  "str cs = lit (js cs)"

text \<open>
  One attempt at the current position: the matched text and the captures, if any.
\<close>

definition match_here :: "re \<Rightarrow> nat option \<Rightarrow> jsstring \<Rightarrow> (jsstring \<times> jsstring list) option" where
  "match_here r prev s =
     (case rmatch r (prev, s, []) Some of
        None \<Rightarrow> None
      | Some (prev', s', caps) \<Rightarrow> Some (take (length s - length s') s, caps))"

text \<open>
  \<^verbatim>\<open>s.replace(/r/g, f)\<close>: the matches are looked for from left to right, each search
  starting where the match before it ended; an empty match moves one code unit on. The
  function \<open>f\<close> takes the matched text and the captures. A replacement that the source
  writes as a template (\<^verbatim>\<open>'<code>$1</code>'\<close>) is written as such a function.
\<close>

function replace_from ::
  "re \<Rightarrow> (jsstring \<Rightarrow> jsstring list \<Rightarrow> jsstring) \<Rightarrow> nat option \<Rightarrow> jsstring \<Rightarrow> jsstring" where
  "replace_from r f prev s =
     (case match_here r prev s of
        None \<Rightarrow> (case s of [] \<Rightarrow> [] | c # cs \<Rightarrow> c # replace_from r f (Some c) cs)
      | Some (m, caps) \<Rightarrow>
          (if m = [] then
             (case s of [] \<Rightarrow> f m caps | c # cs \<Rightarrow> f m caps @ c # replace_from r f (Some c) cs)
           else f m caps @ replace_from r f (Some (last m)) (drop (length m) s)))"
  by pat_completeness auto
termination
  by (relation "measure (\<lambda>(r, f, prev, s). length s)")
     (auto simp: match_here_def split: option.splits)

definition replace_all :: "re \<Rightarrow> (jsstring \<Rightarrow> jsstring list \<Rightarrow> jsstring) \<Rightarrow> jsstring \<Rightarrow> jsstring" where
  "replace_all r f s = replace_from r f None s"

text \<open>The same with a function that reads and updates a state, as the callbacks that
  push on \<^verbatim>\<open>context.codeBlocks\<close> and \<^verbatim>\<open>context.inlineFormats\<close> do.\<close>

function replace_from_st ::
  "re \<Rightarrow> ('s \<Rightarrow> jsstring \<Rightarrow> jsstring list \<Rightarrow> jsstring \<times> 's) \<Rightarrow> 's \<Rightarrow> nat option \<Rightarrow> jsstring
     \<Rightarrow> jsstring \<times> 's" where
  "replace_from_st r f \<sigma> prev s =
     (case match_here r prev s of
        None \<Rightarrow>
          (case s of
             [] \<Rightarrow> ([], \<sigma>)
           | c # cs \<Rightarrow> (case replace_from_st r f \<sigma> (Some c) cs of (t, \<sigma>') \<Rightarrow> (c # t, \<sigma>')))
      | Some (m, caps) \<Rightarrow>
          (case f \<sigma> m caps of
             (out, \<sigma>1) \<Rightarrow>
               (if m = [] then
                  (case s of
                     [] \<Rightarrow> (out, \<sigma>1)
                   | c # cs \<Rightarrow>
                       (case replace_from_st r f \<sigma>1 (Some c) cs of (t, \<sigma>') \<Rightarrow> (out @ c # t, \<sigma>')))
                else
                  (case replace_from_st r f \<sigma>1 (Some (last m)) (drop (length m) s) of
                     (t, \<sigma>') \<Rightarrow> (out @ t, \<sigma>')))))"
  by pat_completeness auto
termination
  by (relation "measure (\<lambda>(r, f, \<sigma>, prev, s). length s)")
     (auto simp: match_here_def split: option.splits)

definition replace_all_st ::
  "re \<Rightarrow> ('s \<Rightarrow> jsstring \<Rightarrow> jsstring list \<Rightarrow> jsstring \<times> 's) \<Rightarrow> 's \<Rightarrow> jsstring \<Rightarrow> jsstring \<times> 's" where
  "replace_all_st r f \<sigma> s = replace_from_st r f \<sigma> None s"

text \<open>\<^verbatim>\<open>s.match(/r/)\<close> and \<^verbatim>\<open>/r/.test(s)\<close> without the \<^verbatim>\<open>g\<close> flag: the first
  position, from the left, where the expression matches.\<close>

fun search_from :: "re \<Rightarrow> nat option \<Rightarrow> jsstring \<Rightarrow> (jsstring \<times> jsstring list) option" where
  "search_from r prev [] = match_here r prev []"
| "search_from r prev (c # cs) =
     (case match_here r prev (c # cs) of
        Some res \<Rightarrow> Some res
      | None \<Rightarrow> search_from r (Some c) cs)"

definition re_match :: "re \<Rightarrow> jsstring \<Rightarrow> (jsstring \<times> jsstring list) option" where
  "re_match r s = search_from r None s"

definition re_test :: "re \<Rightarrow> jsstring \<Rightarrow> bool" where
  "re_test r s \<longleftrightarrow> re_match r s \<noteq> None"

section \<open>SecurityUtils\<close>

definition SAFE_PROTOCOLS :: "jsstring list" where
  "SAFE_PROTOCOLS = [js ''http:'', js ''https:'', js ''mailto:'', js ''ftp:'', js ''ftps:'']"

text \<open>The class \<^verbatim>\<open>[\s\u0000-\u001F\u007F-\u009F]\<close>.\<close>

definition isSpaceOrControl :: "nat \<Rightarrow> bool" where
  "isSpaceOrControl c \<longleftrightarrow> isWhiteSpace c \<or> c \<le> 31 \<or> (127 \<le> c \<and> c \<le> 159)"

text \<open>\<^verbatim>\<open>/^[\s\u0000-\u001F\u007F-\u009F]+|[\s\u0000-\u001F\u007F-\u009F]+$/g\<close>\<close>

definition re_edges :: re where
  "re_edges =
     Alt (Cat (Bol False) (Many isSpaceOrControl 1 None True))
         (Cat (Many isSpaceOrControl 1 None True) (Eol False))"

text \<open>\<^verbatim>\<open>/^([a-z][a-z0-9+.-]*:)/\<close>\<close>

definition isLower :: "nat \<Rightarrow> bool" where
  "isLower c \<longleftrightarrow> 97 \<le> c \<and> c \<le> 122"

definition isSchemeChar :: "nat \<Rightarrow> bool" where
  "isSchemeChar c \<longleftrightarrow> isLower c \<or> isDigit c \<or> c = 43 \<or> c = 46 \<or> c = 45"

definition re_protocol :: re where
  "re_protocol =
     Cat (Bol False)
       (Grp (cats [One isLower, Many isSchemeChar 0 None True, One (\<lambda>c. c = 58)]))"

text \<open>
  \<^verbatim>\<open>sanitizeUrl\<close>. The argument is a string, so the test \<^verbatim>\<open>typeof url !== 'string'\<close>
  is false and \<^verbatim>\<open>!url\<close> holds for the empty string only. The \<^verbatim>\<open>catch\<close> of the
  URIError is the case \<open>None\<close>. \<^verbatim>\<open>Logger.warn\<close> writes to the console and has no
  part in the result.
\<close>

definition sanitizeUrl :: "jsstring \<Rightarrow> jsstring" where
  "sanitizeUrl url =
     (if url = [] then []
      else
        let trimmed = trim url in
        if trimmed = [] then []
        else
          case decodeURIComponent trimmed of
            None \<Rightarrow> []
          | Some decoded \<Rightarrow>
              (let normalized = trim (toLowerCase decoded);
                   cleaned = replace_all re_edges (\<lambda>m caps. []) normalized
               in
                 if startsWith cleaned (js ''javascript:'') \<or>
                    startsWith cleaned (js ''data:'') \<or>
                    startsWith cleaned (js ''vbscript:'') \<or>
                    startsWith cleaned (js ''file:'') \<or>
                    startsWith cleaned (js ''about:'')
                 then []
                 else
                   case re_match re_protocol cleaned of
                     Some (m, caps) \<Rightarrow>
                       (if caps ! 0 \<in> set SAFE_PROTOCOLS then trimmed else [])
                   | None \<Rightarrow> trimmed))"

section \<open>MarkdownParser\<close>

text \<open>\<^verbatim>\<open>escapeHtml\<close> of \<^verbatim>\<open>MarkdownParser\<close>: \<^verbatim>\<open>text.replace(/[&<>"']/g, m => map[m])\<close>
  with the table \<^verbatim>\<open>map\<close> of the source, whose entry for the apostrophe is
  \<^verbatim>\<open>'&#039'\<close>.\<close>

definition parser_map :: "jsstring \<Rightarrow> jsstring" where
  \<open>parser_map m =
     (if m = js ''&'' then js ''&amp;''
      else if m = js ''<'' then js ''&lt;''
      else if m = js ''>'' then js ''&gt;''
      else if m = js ''"'' then js ''&quot;''
      else if m = [39] then js ''&#039''
      else m)\<close>

definition isMeta :: "nat \<Rightarrow> bool" where
  "isMeta c \<longleftrightarrow> c = 38 \<or> c = 60 \<or> c = 62 \<or> c = 34 \<or> c = 39"

definition escapeHtml :: "jsstring \<Rightarrow> jsstring" where
  "escapeHtml text = replace_all (One isMeta) (\<lambda>m caps. parser_map m) text"

text \<open>
  \<^verbatim>\<open>generatePlaceholder\<close>. The value \<open>encoded\<close> comes from
  \<^verbatim>\<open>crypto.randomUUID\<close> (or the clock and \<^verbatim>\<open>Math.random\<close>) and \<^verbatim>\<open>btoa\<close>, which
  are outside the program: it is an argument here, and \<open>parse\<close> takes the values that
  the successive calls draw as a function \<open>ids\<close> of the number of the call.
\<close>

definition generatePlaceholder :: "jsstring \<Rightarrow> jsstring \<Rightarrow> jsstring" where
  "generatePlaceholder prefix encoded = js ''__'' @ prefix @ js ''_'' @ encoded @ js ''__''"

record code_block =
  placeholder :: jsstring
  content :: jsstring

record parse_context =
  codeBlocks :: "code_block list"

text \<open>\<^verbatim>\<open>/```([^\n]*)\n([\s\S]*?)```/g\<close>\<close>

definition re_fence :: re where
  "re_fence =
     cats [str ''```'', Grp (Many (\<lambda>c. c \<noteq> 10) 0 None True), One (\<lambda>c. c = 10),
           Grp (Many isAny 0 None False), str ''```'']"

definition parseCodeBlocks ::
  "(nat \<Rightarrow> jsstring) \<Rightarrow> jsstring \<Rightarrow> parse_context \<Rightarrow> jsstring \<times> parse_context" where
  "parseCodeBlocks ids text context =
     replace_all_st re_fence
       (\<lambda>ctx m caps.
          let ph = generatePlaceholder (js ''CODE_BLOCK'') (ids (length (codeBlocks ctx)));
              cont = js ''<pre><code>'' @ trim (caps ! 1) @ js ''</code></pre>''
          in (ph, ctx\<lparr>codeBlocks := codeBlocks ctx @ [\<lparr>placeholder = ph, content = cont\<rparr>]\<rparr>))
       context text"

definition restoreCodeBlocks :: "jsstring \<Rightarrow> parse_context \<Rightarrow> jsstring" where
  "restoreCodeBlocks text context =
     fold (\<lambda>cb t. replaceString t (placeholder cb) (content cb)) (codeBlocks context) text"

text \<open>\<^verbatim>\<open>/`([^`]+)`/g\<close>\<close>

definition re_inline_code :: re where
  "re_inline_code = cats [str ''`'', Grp (Many (isNot ''`'') 1 None True), str ''`'']"

definition parseInlineCode :: "jsstring \<Rightarrow> jsstring" where
  "parseInlineCode text =
     replace_all re_inline_code (\<lambda>m caps. js ''<code>'' @ caps ! 0 @ js ''</code>'') text"

text \<open>\<^verbatim>\<open>/^(#{1,6})\s+(.+)$/gm\<close>\<close>

definition re_header :: re where
  "re_header =
     cats [Bol True, Grp (Many (isOneOf ''#'') 1 (Some 6) True), Many isWhiteSpace 1 None True,
           Grp (Many isDot 1 None True), Eol True]"

fun decimal :: "nat \<Rightarrow> jsstring" where
  "decimal n = (if n < 10 then [48 + n] else decimal (n div 10) @ [48 + n mod 10])"

definition parseHeaders :: "jsstring \<Rightarrow> jsstring" where
  "parseHeaders text =
     replace_all re_header
       (\<lambda>m caps.
          let level = length (caps ! 0)
          in js ''<h'' @ decimal level @ js ''>'' @ trim (caps ! 1) @
             js ''</h'' @ decimal level @ js ''>'')
       text"

text \<open>\<^verbatim>\<open>/^---+$/gm\<close>\<close>

definition re_rule :: re where
  "re_rule = cats [Bol True, str ''--'', Many (isOneOf ''-'') 1 None True, Eol True]"

record quote_state =
  result :: "jsstring list"
  inBlockquote :: bool
  blockquoteContent :: "jsstring list"

definition blockquoteHtml :: "jsstring list \<Rightarrow> jsstring" where
  "blockquoteHtml ls = js ''<blockquote>'' @ join ls [10] @ js ''</blockquote>''"

definition quote_line :: "quote_state \<Rightarrow> jsstring \<Rightarrow> quote_state" where
  "quote_line st line =
     (if startsWith line (js ''> '') then
        st\<lparr>inBlockquote := True,
           blockquoteContent :=
             (if inBlockquote st then blockquoteContent st else []) @ [drop 2 line]\<rparr>
      else if inBlockquote st then
        st\<lparr>result := result st @ [blockquoteHtml (blockquoteContent st)] @ [line],
           inBlockquote := False, blockquoteContent := []\<rparr>
      else st\<lparr>result := result st @ [line]\<rparr>)"

definition parseBlockquotes :: "jsstring \<Rightarrow> jsstring" where
  "parseBlockquotes text =
     (let st = foldl quote_line
                 \<lparr>result = [], inBlockquote = False, blockquoteContent = []\<rparr>
                 (split text [10])
      in join (if inBlockquote st
               then result st @ [blockquoteHtml (blockquoteContent st)]
               else result st) [10])"

text \<open>\<^verbatim>\<open>/^[\*\-]\s+(.+)$/\<close> and \<^verbatim>\<open>/^\d+\.\s+(.+)$/\<close>\<close>

definition re_ul :: re where
  "re_ul =
     cats [Bol False, One (isOneOf ''*-''), Many isWhiteSpace 1 None True,
           Grp (Many isDot 1 None True), Eol False]"

definition re_ol :: re where
  "re_ol =
     cats [Bol False, Many isDigit 1 None True, str ''.'', Many isWhiteSpace 1 None True,
           Grp (Many isDot 1 None True), Eol False]"

record list_state =
  lresult :: "jsstring list"
  inUl :: bool
  inOl :: bool

definition list_line :: "list_state \<Rightarrow> jsstring \<Rightarrow> list_state" where
  "list_line st line =
     (case re_match re_ul line of
        Some (m, caps) \<Rightarrow>
          \<lparr>lresult = lresult st @
               (if inUl st then [] else (if inOl st then [js ''</ol>''] else []) @ [js ''<ul>'']) @
               [js ''<li>'' @ caps ! 0 @ js ''</li>''],
           inUl = True,
           inOl = (if inUl st then inOl st else False)\<rparr>
      | None \<Rightarrow>
          (case re_match re_ol line of
             Some (m, caps) \<Rightarrow>
               \<lparr>lresult = lresult st @
                    (if inOl st then [] else (if inUl st then [js ''</ul>''] else []) @ [js ''<ol>'']) @
                    [js ''<li>'' @ caps ! 0 @ js ''</li>''],
                inUl = (if inOl st then inUl st else False),
                inOl = True\<rparr>
           | None \<Rightarrow>
               \<lparr>lresult = lresult st @
                    (if inUl st then [js ''</ul>''] else []) @
                    (if inOl st then [js ''</ol>''] else []) @ [line],
                inUl = False, inOl = False\<rparr>))"

definition parseLists :: "jsstring \<Rightarrow> jsstring" where
  "parseLists text =
     (let st = foldl list_line \<lparr>lresult = [], inUl = False, inOl = False\<rparr> (split text [10])
      in join (lresult st @ (if inUl st then [js ''</ul>''] else []) @
               (if inOl st then [js ''</ol>''] else [])) [10])"

text \<open>\<^verbatim>\<open>/!\[([^\]]*)\]\(([^)]+)\)/g\<close> and \<^verbatim>\<open>/\[([^\]]+)\]\(([^)]+)\)/g\<close>\<close>

definition re_image :: re where
  "re_image =
     cats [str ''!['', Grp (Many (isNot '']'') 0 None True), str '']('',
           Grp (Many (isNot '')'') 1 None True), str '')'']"

definition re_link :: re where
  "re_link =
     cats [str ''['', Grp (Many (isNot '']'') 1 None True), str '']('',
           Grp (Many (isNot '')'') 1 None True), str '')'']"

definition imageHtml :: "jsstring \<Rightarrow> jsstring list \<Rightarrow> jsstring" where
  \<open>imageHtml m caps =
     (let alt = caps ! 0; url = caps ! 1;
          safeUrl = sanitizeUrl url;
          safeAlt = alt
      in if safeUrl \<noteq> []
         then js ''<img src="'' @ safeUrl @ js ''" alt="'' @ safeAlt @ js ''">''
         else js ''<span>[Image: '' @ safeAlt @ js '']</span>'')\<close>

definition linkHtml :: "jsstring \<Rightarrow> jsstring list \<Rightarrow> jsstring" where
  \<open>linkHtml m caps =
     (let text = caps ! 0; url = caps ! 1;
          safeUrl = sanitizeUrl url;
          safeText = text
      in if safeUrl \<noteq> []
         then js ''<a href="'' @ safeUrl @ js ''">'' @ safeText @ js ''</a>''
         else js ''<span>['' @ safeText @ js '']</span>'')\<close>

definition parseImages :: "jsstring \<Rightarrow> jsstring" where
  "parseImages html = replace_all re_image imageHtml html"

definition parseLinks :: "jsstring \<Rightarrow> jsstring" where
  "parseLinks html = replace_all re_link linkHtml html"

text \<open>The emphasis and strikethrough expressions, \<^verbatim>\<open>/\*\*\*([^*]+)\*\*\*/g\<close> and the
  like: a delimiter, one or more code units that are not the delimiter's character, the
  delimiter again.\<close>

definition re_delim :: "string \<Rightarrow> string \<Rightarrow> re" where
  "re_delim d c = cats [str d, Grp (Many (isNot c) 1 None True), str d]"

definition wrap :: "string \<Rightarrow> string \<Rightarrow> jsstring \<Rightarrow> jsstring list \<Rightarrow> jsstring" where
  "wrap l r m caps = js l @ caps ! 0 @ js r"

definition parseEmphasis :: "jsstring \<Rightarrow> jsstring" where
  "parseEmphasis html0 =
     (let html = replace_all (re_delim ''***'' ''*'') (wrap ''<strong><em>'' ''</em></strong>'') html0;
          html = replace_all (re_delim ''**'' ''*'') (wrap ''<strong>'' ''</strong>'') html;
          html = replace_all (re_delim ''*'' ''*'') (wrap ''<em>'' ''</em>'') html;
          html = replace_all (re_delim ''___'' ''_'') (wrap ''<strong><em>'' ''</em></strong>'') html;
          html = replace_all (re_delim ''__'' ''_'') (wrap ''<strong>'' ''</strong>'') html;
          html = replace_all (re_delim ''_'' ''_'') (wrap ''<em>'' ''</em>'') html
      in html)"

definition parseStrikethrough :: "jsstring \<Rightarrow> jsstring" where
  "parseStrikethrough html = replace_all (re_delim ''~~'' ''~'') (wrap ''<del>'' ''</del>'') html"

text \<open>\<^verbatim>\<open>/^<\/?[a-zA-Z][a-zA-Z0-9]*/\<close>\<close>

definition re_tag :: re where
  "re_tag =
     cats [Bol False, str ''<'', Many (isOneOf ''/'') 0 (Some 1) True, One isAlpha,
           Many isAlnum 0 None True]"

definition wrapBlock :: "jsstring \<Rightarrow> jsstring" where
  "wrapBlock block =
     (let trimmed = trim block in
      if trimmed = [] then []
      else if re_test re_tag trimmed then trimmed
      else if includesStr trimmed [10] \<and> \<not> re_test re_tag trimmed then trimmed
      else js ''<p>'' @ trimmed @ js ''</p>'')"

definition parseParagraphs :: "jsstring \<Rightarrow> jsstring" where
  "parseParagraphs text = join (map wrapBlock (split text [10, 10])) [10, 10]"

text \<open>\<^verbatim>\<open>parse\<close>: the passes in the order of the source.\<close>

definition parse :: "(nat \<Rightarrow> jsstring) \<Rightarrow> jsstring \<Rightarrow> jsstring" where
  "parse ids markdown =
     (if markdown = [] then []
      else
        let context = \<lparr>codeBlocks = []\<rparr>;
            html = markdown;
            html = escapeHtml html;
            (html, context) = parseCodeBlocks ids html context;
            html = parseInlineCode html;
            html = parseHeaders html;
            html = replace_all re_rule (\<lambda>m caps. js ''<hr>'') html;
            html = parseBlockquotes html;
            html = parseLists html;
            html = parseImages html;
            html = parseLinks html;
            html = parseEmphasis html;
            html = parseStrikethrough html;
            html = parseParagraphs html;
            html = restoreCodeBlocks html context
        in html)"

section \<open>SyntaxHighlighter\<close>

text \<open>\<^verbatim>\<open>escapeHtml\<close> of \<^verbatim>\<open>SyntaxHighlighter\<close>, with its own table.\<close>

definition highlighter_map :: "jsstring \<Rightarrow> jsstring" where
  \<open>highlighter_map m =
     (if m = js ''&'' then js ''&amp;''
      else if m = js ''<'' then js ''&lt;''
      else if m = js ''>'' then js ''&gt;''
      else if m = js ''"'' then js ''&quot;''
      else if m = [39] then js ''&#039;''
      else m)\<close>

definition hl_escapeHtml :: "jsstring \<Rightarrow> jsstring" where
  "hl_escapeHtml text = replace_all (One isMeta) (\<lambda>m caps. highlighter_map m) text"

record highlight_context =
  inlineFormats :: "jsstring list"

text \<open>
  One pass of \<^verbatim>\<open>extractInlineFormats\<close>: every match is replaced by
  \<^verbatim>\<open>__INLINE_FORMAT_${index}__\<close>, the span is pushed on \<^verbatim>\<open>context.inlineFormats\<close>
  and \<^verbatim>\<open>index\<close> goes up by one. The state is the local variable \<^verbatim>\<open>index\<close> and
  the context.
\<close>

definition inlinePlaceholder :: "nat \<Rightarrow> jsstring" where
  "inlinePlaceholder index = js ''__INLINE_FORMAT_'' @ decimal index @ js ''__''"

definition extractPass ::
  "string \<Rightarrow> string \<Rightarrow> jsstring \<Rightarrow> nat \<times> highlight_context \<Rightarrow> jsstring
     \<Rightarrow> jsstring \<times> nat \<times> highlight_context" where
  "extractPass d c spanOpen st text =
     replace_all_st (re_delim d c)
       (\<lambda>(index, ctx) m caps.
          (inlinePlaceholder index,
           (index + 1,
            ctx\<lparr>inlineFormats :=
                  inlineFormats ctx @ [spanOpen @ js d @ caps ! 0 @ js d @ js ''</span>'']\<rparr>)))
       st text"

definition spanBold :: jsstring where
  \<open>spanBold = js ''<span class="syntax-bold">''\<close>

definition spanItalic :: jsstring where
  \<open>spanItalic = js ''<span class="syntax-italic">''\<close>

definition extractInlineFormats ::
  "jsstring \<Rightarrow> highlight_context \<Rightarrow> jsstring \<times> highlight_context" where
  "extractInlineFormats text0 context =
     (let index = 0;
          (text, index, context) = extractPass ''***'' ''*'' spanBold (index, context) text0;
          (text, index, context) = extractPass ''**'' ''*'' spanBold (index, context) text;
          (text, index, context) = extractPass ''__'' ''_'' spanBold (index, context) text;
          (text, index, context) = extractPass ''*'' ''*'' spanItalic (index, context) text;
          (text, index, context) = extractPass ''_'' ''_'' spanItalic (index, context) text
      in (text, context))"

definition restoreInlineFormats :: "jsstring \<Rightarrow> highlight_context \<Rightarrow> jsstring" where
  "restoreInlineFormats text context =
     fold (\<lambda>(format, index) t. replaceString t (inlinePlaceholder index) format)
       (zip (inlineFormats context) [0 ..< length (inlineFormats context)]) text"

text \<open>The expressions of \<^verbatim>\<open>highlight\<close>:
  \<^verbatim>\<open>/```([\s\S]*?)```/g\<close>, \<^verbatim>\<open>/!?\[([^\]]*)\]\(([^)]+)\)/g\<close>,
  \<^verbatim>\<open>/^([\*\-]|\d+\.)\s+/gm\<close> and \<^verbatim>\<open>/^(&gt;)\s+/gm\<close>; the inline code and the
  header expressions are those of the parser.\<close>

definition re_hl_fence :: re where
  "re_hl_fence = cats [str ''```'', Grp (Many isAny 0 None False), str ''```'']"

definition re_hl_link :: re where
  "re_hl_link =
     cats [Many (isOneOf ''!'') 0 (Some 1) True, str ''['', Grp (Many (isNot '']'') 0 None True),
           str '']('', Grp (Many (isNot '')'') 1 None True), str '')'']"

definition re_hl_list :: re where
  "re_hl_list =
     cats [Bol True,
           Grp (Alt (One (isOneOf ''*-'')) (Cat (Many isDigit 1 None True) (str ''.''))),
           Many isWhiteSpace 1 None True]"

definition re_hl_quote :: re where
  "re_hl_quote = cats [Bol True, Grp (str ''&gt;''), Many isWhiteSpace 1 None True]"

definition highlight :: "jsstring \<Rightarrow> jsstring" where
  \<open>highlight text0 =
     (if text0 = [] then []
      else
        let context = \<lparr>inlineFormats = []\<rparr>;
            text = hl_escapeHtml text0;
            (text, context) = extractInlineFormats text context;
            text = replace_all re_hl_fence
                     (\<lambda>m caps. js ''<span class="syntax-code-block">```'' @ caps ! 0 @
                                js ''```</span>'') text;
            text = replace_all re_inline_code
                     (\<lambda>m caps. js ''<span class="syntax-code">`'' @ caps ! 0 @ js ''`</span>'') text;
            text = replace_all re_header
                     (\<lambda>m caps. js ''<span class="syntax-header">'' @ caps ! 0 @ js '' '' @
                                caps ! 1 @ js ''</span>'') text;
            text = replace_all re_hl_link
                     (\<lambda>m caps. js ''<span class="syntax-link">'' @ m @ js ''</span>'') text;
            text = replace_all re_hl_list
                     (\<lambda>m caps. js ''<span class="syntax-list">'' @ caps ! 0 @ js '' </span>'') text;
            text = replace_all re_hl_quote
                     (\<lambda>m caps. js ''<span class="syntax-quote">&gt; </span>'') text;
            text = restoreInlineFormats text context
        in text)\<close>

section \<open>What the specification says of the highlighter's output\<close>

text \<open>
  Written from the specification, not from the source: the specification says that
  stripping the span markers that \<^verbatim>\<open>highlight\<close> adds and decoding the five entities
  gives the input back. \<open>spec_stripSpans\<close> removes every \<^verbatim>\<open><span class="syntax-...">\<close>
  and every \<^verbatim>\<open></span>\<close>; \<open>spec_decodeEntities\<close> turns the five entities back
  into their characters.
\<close>

definition re_span :: re where
  \<open>re_span =
     Alt (cats [str ''<span class="syntax-'', Many (\<lambda>c. isLower c \<or> c = 45) 0 None True,
                str ''">''])
         (str ''</span>'')\<close>

definition spec_stripSpans :: "jsstring \<Rightarrow> jsstring" where
  "spec_stripSpans s = replace_all re_span (\<lambda>m caps. []) s"

definition re_entity :: re where
  "re_entity =
     Alt (str ''&amp;'') (Alt (str ''&lt;'') (Alt (str ''&gt;'') (Alt (str ''&quot;'') (str ''&#039;''))))"

definition entityChar :: "jsstring \<Rightarrow> jsstring" where
  \<open>entityChar m =
     (if m = js ''&amp;'' then js ''&''
      else if m = js ''&lt;'' then js ''<''
      else if m = js ''&gt;'' then js ''>''
      else if m = js ''&quot;'' then js ''"''
      else if m = js ''&#039;'' then [39]
      else m)\<close>

definition spec_decodeEntities :: "jsstring \<Rightarrow> jsstring" where
  "spec_decodeEntities s = replace_all re_entity (\<lambda>m caps. entityChar m) s"

section \<open>Auxiliary notions for the proofs\<close>

text \<open>An expression without \<^verbatim>\<open>^\<close> matches without looking at the code unit before
  the current position.\<close>

fun anchor_free :: "re \<Rightarrow> bool" where
  "anchor_free (Bol m) = False"
| "anchor_free (Cat a b) = (anchor_free a \<and> anchor_free b)"
| "anchor_free (Alt a b) = (anchor_free a \<and> anchor_free b)"
| "anchor_free (Grp a) = anchor_free a"
| "anchor_free r = True"

text \<open>A text in which no pass of \<^verbatim>\<open>parse\<close> finds anything: no line terminator, none
  of the five metacharacters and none of the characters that start or end a markdown
  construct inside a line.\<close>

definition plainText :: "jsstring \<Rightarrow> bool" where
  "plainText s \<longleftrightarrow>
     (\<forall>c\<in>set s. \<not> isLineTerminator c \<and> \<not> isMeta c \<and> c \<notin> set (js ''`*_~![]()''))"

text \<open>The characters of the identifier inside a placeholder: the Base64 alphabet
  without the padding sign, which \<^verbatim>\<open>btoa(uuid).replace(/=/g, '')\<close> gives, and the
  hyphen of a UUID that is kept as it is where \<^verbatim>\<open>btoa\<close> is missing.\<close>

definition isIdentChar :: "nat \<Rightarrow> bool" where
  "isIdentChar c \<longleftrightarrow> isAlnum c \<or> c = 43 \<or> c = 47 \<or> c = 45"

section \<open>Facts about the string functions and the matcher\<close>

declare replace_from.simps [simp del] replace_from_st.simps [simp del] rmatch.simps(3) [simp del]

lemma first_some_all_None: "(\<And>x. x \<in> set xs \<Longrightarrow> f x = None) \<Longrightarrow> first_some f xs = None"
  by (induction xs) auto

lemma first_some_head: "f x = Some y \<Longrightarrow> first_some f (x # xs) = Some y"
  by simp

lemma counts_greedy_unbounded:
  "counts lo None True n = rev [lo ..< Suc n]"
  by (simp add: counts_def)

lemma toLowerCase_append: "toLowerCase (a @ b) = toLowerCase a @ toLowerCase b"
  by (simp add: toLowerCase_def)

lemma lowerUnit_control: "isSpaceOrControl c \<Longrightarrow> lowerUnit c = [c]"
  by (auto simp: isSpaceOrControl_def isWhiteSpace_def isLineTerminator_def lowerUnit_def)

lemma toLowerCase_control: "(\<forall>c\<in>set p. isSpaceOrControl c) \<Longrightarrow> toLowerCase p = p"
  by (induction p) (auto simp: toLowerCase_def lowerUnit_control)

lemma dropWhile_core:
  assumes "s \<noteq> []" and "\<not> P (hd s)"
  shows "dropWhile P (a @ s @ b) = dropWhile P a @ s @ b"
proof (cases "\<forall>x\<in>set a. P x")
  case True
  from assms have "dropWhile P (s @ b) = s @ b" by (cases s) auto
  with True show ?thesis by (simp add: dropWhile_append)
next
  case False
  then show ?thesis by (auto simp: dropWhile_append1)
qed

lemma dropTrail_core:
  assumes "s \<noteq> []" and "\<not> P (last s)"
  shows "rev (dropWhile P (rev (a @ s @ b))) = a @ s @ rev (dropWhile P (rev b))"
proof -
  have "dropWhile P (rev b @ rev s @ rev a) = dropWhile P (rev b) @ rev s @ rev a"
    using assms by (intro dropWhile_core) (auto simp: hd_rev)
  then show ?thesis by simp
qed

lemma trim_core:
  assumes "s \<noteq> []" and "\<not> isWhiteSpace (hd s)" and "\<not> isWhiteSpace (last s)"
  shows "trim (a @ s @ b) = dropWhile isWhiteSpace a @ s @ rev (dropWhile isWhiteSpace (rev b))"
proof -
  have "dropWhile isWhiteSpace (a @ s @ b) = dropWhile isWhiteSpace a @ s @ b"
    using assms by (simp add: dropWhile_core)
  then show ?thesis
    unfolding trim_def dropTrail_def
    using assms dropTrail_core [of s isWhiteSpace "dropWhile isWhiteSpace a" b]
    by simp
qed



lemma first_some_rev_upt:
  assumes "lo \<le> m" and "\<And>n. lo \<le> n \<Longrightarrow> n < m \<Longrightarrow> f n = None"
  shows "first_some f (rev [lo ..< Suc m]) = f m"
proof -
  have "first_some f (rev [lo ..< m]) = None"
    using assms(2) by (intro first_some_all_None) auto
  moreover have "rev [lo ..< Suc m] = m # rev [lo ..< m]"
    using assms(1) by simp
  ultimately show ?thesis by (simp split: option.splits)
qed

lemma rmatch_many_greedy:
  assumes "\<And>n. lo \<le> n \<Longrightarrow> n < length (takeWhile P s) \<Longrightarrow>
             k (advance prev s n, drop n s, caps) = None"
  shows "rmatch (Many P lo None True) (prev, s, caps) k =
           (if lo \<le> length (takeWhile P s)
            then k (advance prev s (length (takeWhile P s)), dropWhile P s, caps)
            else None)"
proof (cases "lo \<le> length (takeWhile P s)")
  case True
  have "first_some (\<lambda>n. k (advance prev s n, drop n s, caps))
          (rev [lo ..< Suc (length (takeWhile P s))])
        = k (advance prev s (length (takeWhile P s)), drop (length (takeWhile P s)) s, caps)"
    using True assms by (intro first_some_rev_upt) auto
  then have "rmatch (Many P lo None True) (prev, s, caps) k =
      k (advance prev s (length (takeWhile P s)), drop (length (takeWhile P s)) s, caps)"
    unfolding rmatch.simps(3) counts_greedy_unbounded .
  then show ?thesis
    using True by (simp add: dropWhile_eq_drop [symmetric])
next
  case False
  then have "[lo ..< Suc (length (takeWhile P s))] = []" by simp
  then have "rmatch (Many P lo None True) (prev, s, caps) k = None"
    unfolding rmatch.simps(3) counts_greedy_unbounded by simp
  with False show ?thesis by simp
qed

text \<open>When the continuation accepts the longest run, that is the match.\<close>

lemma rmatch_many_greedy_top:
  assumes "lo \<le> length (takeWhile P s)"
    and "k (advance prev s (length (takeWhile P s)), dropWhile P s, caps) = Some y"
  shows "rmatch (Many P lo None True) (prev, s, caps) k = Some y"
proof -
  have "rev [lo ..< Suc (length (takeWhile P s))] =
          length (takeWhile P s) # rev [lo ..< length (takeWhile P s)]"
    using assms(1) by simp
  then show ?thesis
    unfolding rmatch.simps(3) counts_greedy_unbounded
    using assms(2) by (simp add: dropWhile_eq_drop [symmetric])
qed

lemma advance_run:
  "takeWhile P s \<noteq> [] \<Longrightarrow> advance prev s (length (takeWhile P s)) = Some (last (takeWhile P s))"
proof -
  assume ne: "takeWhile P s \<noteq> []"
  then obtain n where n: "length (takeWhile P s) = Suc n" by (cases "takeWhile P s") auto
  then have "takeWhile P s ! n = s ! n" by (intro takeWhile_nth) simp
  moreover have "last (takeWhile P s) = takeWhile P s ! n"
    using ne n by (simp add: last_conv_nth)
  ultimately show ?thesis using n by (simp add: advance_def)
qed

lemma drop_in_run:
  assumes "n < length (takeWhile P s)"
  shows "drop n s \<noteq> []" and "P (hd (drop n s))"
proof -
  have le: "length (takeWhile P s) \<le> length s" by (rule length_takeWhile_le)
  with assms show "drop n s \<noteq> []" by simp
  have "hd (drop n s) = s ! n" using assms le by (simp add: hd_drop_conv_nth)
  also have "\<dots> = takeWhile P s ! n" using assms by (simp add: takeWhile_nth)
  finally show "P (hd (drop n s))"
    using assms by (metis nth_mem set_takeWhileD)
qed

lemma many_then_eol:
  "rmatch (Cat (Many P (Suc 0) None True) (Eol False)) (prev, s, caps) Some =
     (if s \<noteq> [] \<and> (\<forall>y\<in>set s. P y) then Some (Some (last s), [], caps) else None)"
proof -
  have step: "rmatch (Many P (Suc 0) None True) (prev, s, caps) (\<lambda>st. rmatch (Eol False) st Some) =
          (if Suc 0 \<le> length (takeWhile P s)
           then rmatch (Eol False) (advance prev s (length (takeWhile P s)), dropWhile P s, caps) Some
           else None)"
  proof (rule rmatch_many_greedy)
    fix n assume "n < length (takeWhile P s)"
    then have "drop n s \<noteq> []" by (rule drop_in_run)
    then show "rmatch (Eol False) (advance prev s n, drop n s, caps) Some = None"
      by (cases "drop n s") auto
  qed
  show ?thesis
  proof (cases "s \<noteq> [] \<and> (\<forall>y\<in>set s. P y)")
    case True
    then have tw: "takeWhile P s = s" and dw: "dropWhile P s = []" by simp_all
    from True have "Suc 0 \<le> length s" by (cases s) auto
    moreover have "advance prev s (length s) = Some (last s)"
      using advance_run [of P s prev] True unfolding tw by blast
    ultimately show ?thesis using True step by (simp add: tw dw)
  next
    case False
    then have "\<not> Suc 0 \<le> length (takeWhile P s) \<or> dropWhile P s \<noteq> []"
      by (cases s) auto
    then have "rmatch (Many P (Suc 0) None True) (prev, s, caps) (\<lambda>st. rmatch (Eol False) st Some) = None"
      unfolding step by (cases "dropWhile P s") auto
    with False show ?thesis by simp
  qed
qed

lemma bol_then_many:
  "rmatch (Cat (Bol False) (Many P (Suc 0) None True)) (None, s, caps) Some =
     (if takeWhile P s = [] then None
      else Some (Some (last (takeWhile P s)), dropWhile P s, caps))"
proof (cases "takeWhile P s = []")
  case True
  then have "rmatch (Many P (Suc 0) None True) (None, s, caps) Some = None"
    unfolding rmatch.simps(3) counts_greedy_unbounded by simp
  with True show ?thesis by simp
next
  case False
  then have "Suc 0 \<le> length (takeWhile P s)" by (cases "takeWhile P s") auto
  then have "rmatch (Many P (Suc 0) None True) (None, s, caps) Some =
      Some (advance None s (length (takeWhile P s)), dropWhile P s, caps)"
    by (intro rmatch_many_greedy_top) auto
  with False show ?thesis by (simp add: advance_run)
qed

lemma match_edges_inner:
  "match_here re_edges (Some c) s =
     (if s \<noteq> [] \<and> (\<forall>y\<in>set s. isSpaceOrControl y) then Some (s, []) else None)"
proof -
  have "rmatch (Cat (Bol False) (Many isSpaceOrControl (Suc 0) None True)) (Some c, s, []) Some = None"
    by simp
  then show ?thesis
    unfolding match_here_def re_edges_def
    by (simp add: many_then_eol del: rmatch.simps(6))
qed

lemma match_edges_start:
  "match_here re_edges None s =
     (if takeWhile isSpaceOrControl s = [] then None
      else Some (takeWhile isSpaceOrControl s, []))"
proof -
  have len: "length s - length (dropWhile isSpaceOrControl s) = length (takeWhile isSpaceOrControl s)"
    by (metis add_diff_cancel_right' length_append takeWhile_dropWhile_id)
  have tk: "take (length (takeWhile isSpaceOrControl s)) s = takeWhile isSpaceOrControl s"
    by (metis takeWhile_eq_take)
  have none: "takeWhile isSpaceOrControl s = [] \<Longrightarrow> \<not> (s \<noteq> [] \<and> (\<forall>y\<in>set s. isSpaceOrControl y))"
    by (cases s) (auto split: if_splits)
  show ?thesis
  proof (cases "takeWhile isSpaceOrControl s = []")
    case True
    with none show ?thesis
      unfolding match_here_def re_edges_def
      by (simp add: many_then_eol bol_then_many del: rmatch.simps(6))
  next
    case False
    then show ?thesis
      unfolding match_here_def re_edges_def
      by (simp add: bol_then_many len tk del: rmatch.simps(6))
  qed
qed


lemma dropTrail_Cons:
  "dropTrail P (x # xs) = (if (\<forall>y\<in>set (x # xs). P y) then [] else x # dropTrail P xs)"
  by (auto simp: dropTrail_def dropWhile_append)

lemma edges_inner:
  "replace_from re_edges (\<lambda>m caps. []) (Some c) s = dropTrail isSpaceOrControl s"
proof (induction s arbitrary: c)
  case Nil
  show ?case
    by (subst replace_from.simps) (simp add: match_edges_inner dropTrail_def)
next
  case (Cons x xs)
  show ?case
  proof (cases "\<forall>y\<in>set (x # xs). isSpaceOrControl y")
    case True
    have "replace_from re_edges (\<lambda>m caps. []) (Some (last (x # xs))) [] = []"
      by (subst replace_from.simps) (simp add: match_edges_inner)
    with True show ?thesis
      by (subst replace_from.simps) (simp add: match_edges_inner dropTrail_Cons)
  next
    case False
    then show ?thesis
      by (subst replace_from.simps) (auto simp: match_edges_inner dropTrail_Cons Cons.IH)
  qed
qed

lemma edges_all:
  "replace_all re_edges (\<lambda>m caps. []) s = dropTrail isSpaceOrControl (dropWhile isSpaceOrControl s)"
proof (cases "takeWhile isSpaceOrControl s = []")
  case True
  then have dw: "dropWhile isSpaceOrControl s = s"
    by (metis append_Nil takeWhile_dropWhile_id)
  show ?thesis
  proof (cases s)
    case Nil
    then show ?thesis
      unfolding replace_all_def
      by (subst replace_from.simps) (simp add: match_edges_start dropTrail_def)
  next
    case (Cons x xs)
    with True have "\<not> isSpaceOrControl x" by (auto split: if_splits)
    then show ?thesis
      unfolding replace_all_def using Cons True
      by (subst replace_from.simps) (simp add: match_edges_start edges_inner dropTrail_Cons)
  qed
next
  case False
  then show ?thesis
    unfolding replace_all_def
    by (subst replace_from.simps)
       (simp add: match_edges_start edges_inner dropWhile_eq_drop [symmetric])
qed

lemma cleaned_core:
  assumes "\<forall>c\<in>set p. isSpaceOrControl c" and "s \<noteq> []"
    and "\<not> isSpaceOrControl (hd s)" and "\<not> isSpaceOrControl (last s)"
  shows "\<exists>t. replace_all re_edges (\<lambda>m caps. []) (trim (p @ s @ r)) = s @ t"
proof -
  have ws: "\<not> isWhiteSpace (hd s)" "\<not> isWhiteSpace (last s)"
    using assms(3,4) by (auto simp: isSpaceOrControl_def)
  define p' where "p' = dropWhile isWhiteSpace p"
  define r' where "r' = rev (dropWhile isWhiteSpace (rev r))"
  have t: "trim (p @ s @ r) = p' @ s @ r'"
    unfolding p'_def r'_def using assms(2) ws by (rule trim_core)
  have "\<forall>c\<in>set p'. isSpaceOrControl c"
    unfolding p'_def using assms(1) by (meson set_dropWhileD)
  then have "dropWhile isSpaceOrControl p' = []" by simp
  then have "dropWhile isSpaceOrControl (p' @ s @ r') = s @ r'"
    using dropWhile_core [of s isSpaceOrControl p' r'] assms(2,3) by simp
  moreover have "dropTrail isSpaceOrControl (s @ r') = s @ dropTrail isSpaceOrControl r'"
    unfolding dropTrail_def
    using dropTrail_core [of s isSpaceOrControl "[]" r'] assms(2,4) by simp
  ultimately show ?thesis by (simp add: edges_all t)
qed

lemma startsWith_append: "startsWith (s @ t) s"
  by (simp add: startsWith_def)

lemma sanitizeUrl_dangerous:
  assumes s: "s = js ''javascript:'' \<or> s = js ''data:'' \<or> s = js ''vbscript:'' \<or>
              s = js ''file:'' \<or> s = js ''about:''"
    and dec: "decodeURIComponent (trim u) = Some (p @ w @ r)"
    and p: "\<forall>c\<in>set p. isSpaceOrControl c"
    and w: "toLowerCase w = s"
  shows "sanitizeUrl u = []"
proof -
  have core: "s \<noteq> [] \<and> \<not> isSpaceOrControl (hd s) \<and> \<not> isSpaceOrControl (last s)"
    using s by (auto simp: js_def isSpaceOrControl_def isWhiteSpace_def isLineTerminator_def)
  have "toLowerCase (p @ w @ r) = p @ s @ toLowerCase r"
    using p w by (simp add: toLowerCase_append toLowerCase_control)
  moreover obtain t where "replace_all re_edges (\<lambda>m caps. []) (trim (p @ s @ toLowerCase r)) = s @ t"
    using cleaned_core [OF p, of s "toLowerCase r"] core by blast
  ultimately have "startsWith (replace_all re_edges (\<lambda>m caps. []) (trim (toLowerCase (p @ w @ r)))) s"
    by (simp add: startsWith_append)
  then show ?thesis
    using s dec by (auto simp: sanitizeUrl_def Let_def)
qed

lemma first_some_rel:
  assumes "\<And>x. map_option snd (f x) = map_option snd (g x)"
  shows "map_option snd (first_some f xs) = map_option snd (first_some g xs)"
proof (induction xs)
  case Nil
  show ?case by simp
next
  case (Cons x xs)
  from assms [of x] show ?case
    by (cases "f x"; cases "g x") (auto simp: Cons.IH)
qed

lemma rmatch_prev_indep:
  assumes "anchor_free r"
    and "\<And>p p' s c. map_option snd (k (p, s, c)) = map_option snd (k' (p', s, c))"
  shows "map_option snd (rmatch r (p, s, c) k) = map_option snd (rmatch r (p', s, c) k')"
  using assms
proof (induction r arbitrary: p p' s c k k')
  case Eps
  then show ?case by simp
next
  case (One P)
  then show ?case by (cases s) auto
next
  case (Many P lo hi greedy)
  show ?case
    unfolding rmatch.simps(3) by (rule first_some_rel) (rule Many.prems(2))
next
  case (Bol m)
  then show ?case by simp
next
  case (Eol m)
  then show ?case by (cases s) auto
next
  case (Cat a b)
  from Cat.prems have af: "anchor_free a" "anchor_free b" by simp_all
  have "map_option snd (rmatch b (p, s, c) k) = map_option snd (rmatch b (p', s, c) k')"
    for p p' s c
    using af(2) Cat.prems(2) by (rule Cat.IH(2))
  then have "map_option snd (rmatch a (p, s, c) (\<lambda>st. rmatch b st k)) =
             map_option snd (rmatch a (p', s, c) (\<lambda>st. rmatch b st k'))"
    using af(1) by (intro Cat.IH(1)) auto
  then show ?case by simp
next
  case (Alt a b)
  from Alt.prems have af: "anchor_free a" "anchor_free b" by simp_all
  have a: "map_option snd (rmatch a (p, s, c) k) = map_option snd (rmatch a (p', s, c) k')"
    using af(1) Alt.prems(2) by (rule Alt.IH(1))
  have b: "map_option snd (rmatch b (p, s, c) k) = map_option snd (rmatch b (p', s, c) k')"
    using af(2) Alt.prems(2) by (rule Alt.IH(2))
  from a b show ?case
    by (cases "rmatch a (p, s, c) k"; cases "rmatch a (p', s, c) k'") auto
next
  case (Grp a)
  from Grp.prems have af: "anchor_free a" by simp
  have "map_option snd (rmatch a (p, s, c)
            (\<lambda>(prev', s', caps'). k (prev', s', caps' @ [take (length s - length s') s]))) =
        map_option snd (rmatch a (p', s, c)
            (\<lambda>(prev', s', caps'). k' (prev', s', caps' @ [take (length s - length s') s])))"
    using af by (intro Grp.IH) (auto simp: Grp.prems(2))
  then show ?case by simp
qed

lemma match_here_prev_indep:
  assumes "anchor_free r"
  shows "match_here r p s = match_here r p' s"
proof -
  have "map_option snd (rmatch r (p, s, []) Some) = map_option snd (rmatch r (p', s, []) Some)"
    using assms by (rule rmatch_prev_indep) simp
  then show ?thesis
    unfolding match_here_def
    by (cases "rmatch r (p, s, []) Some"; cases "rmatch r (p', s, []) Some") auto
qed

lemma replace_from_prev_indep:
  assumes "anchor_free r"
  shows "replace_from r f p s = replace_from r f p' s"
  by (subst (1 2) replace_from.simps) (simp add: match_here_prev_indep [OF assms, of p s p'])

lemma replace_from_copy:
  assumes "anchor_free r" and "match_here r None (c # cs) = None"
  shows "replace_all r f (c # cs) = c # replace_all r f cs"
  unfolding replace_all_def
  by (subst replace_from.simps)
     (simp add: assms(2) replace_from_prev_indep [OF assms(1), of f "Some c" cs None])

lemma replace_from_match:
  assumes "anchor_free r" and "match_here r None (m @ t) = Some (m, caps)" and "m \<noteq> []"
  shows "replace_all r f (m @ t) = f m caps @ replace_all r f t"
  unfolding replace_all_def
  by (subst replace_from.simps)
     (simp add: assms(2,3) replace_from_prev_indep [OF assms(1), of f "Some (last m)" t None])


lemma rmatch_lit_app:
  "l \<noteq> [] \<Longrightarrow> rmatch (lit l) (prev, l @ s, caps) k = k (Some (last l), s, caps)"
proof (induction l arbitrary: prev rule: lit.induct)
  case 1
  then show ?case by simp
next
  case (2 c)
  show ?case by simp
next
  case (3 c v va)
  then show ?case by simp
qed

lemma rmatch_lit_hd:
  "l \<noteq> [] \<Longrightarrow> s = [] \<or> hd s \<noteq> hd l \<Longrightarrow> rmatch (lit l) (prev, s, caps) k = None"
  by (cases l rule: lit.cases; cases s) auto

lemma takeWhile_stop:
  "\<forall>c\<in>set a. P c \<Longrightarrow> \<not> P x \<Longrightarrow> takeWhile P (a @ x # t) = a"
  by (induction a) auto

lemma dropWhile_stop:
  "\<forall>c\<in>set a. P c \<Longrightarrow> \<not> P x \<Longrightarrow> dropWhile P (a @ x # t) = x # t"
  by (induction a) auto


declare rmatch.simps [simp del] lit.simps [simp del]

lemma rmatch_cat_lit:
  "l \<noteq> [] \<Longrightarrow> rmatch (Cat (lit l) r) (prev, l @ s, caps) k = rmatch r (Some (last l), s, caps) k"
  by (simp add: rmatch.simps(6) rmatch_lit_app)

lemma rmatch_cat_lit_fail:
  "l \<noteq> [] \<Longrightarrow> s = [] \<or> hd s \<noteq> hd l \<Longrightarrow> rmatch (Cat (lit l) r) (prev, s, caps) k = None"
  by (simp add: rmatch.simps(6) rmatch_lit_hd)

lemma rmatch_lit_end:
  "l \<noteq> [] \<Longrightarrow> rmatch (lit l) (prev, l @ s, caps) Some = Some (Some (last l), s, caps)"
  by (rule rmatch_lit_app)

text \<open>A capture group around a greedy run that is followed by a code unit outside the
  class, when the rest of the expression accepts what follows the run.\<close>

lemma rmatch_cat_grp_run:
  assumes "\<forall>c\<in>set a. P c" and "\<not> P x" and "lo \<le> length a"
    and "\<And>p. rmatch r (p, x # t, caps @ [a]) k = Some y"
  shows "rmatch (Cat (Grp (Many P lo None True)) r) (prev, a @ x # t, caps) k = Some y"
proof -
  have tw: "takeWhile P (a @ x # t) = a" and dw: "dropWhile P (a @ x # t) = x # t"
    using assms(1,2) by (simp_all add: takeWhile_stop dropWhile_stop)
  have "rmatch (Many P lo None True) (prev, a @ x # t, caps)
          (\<lambda>(prev', s', caps').
              rmatch r (prev', s', caps' @ [take (length (a @ x # t) - length s') (a @ x # t)]) k)
        = Some y"
    by (rule rmatch_many_greedy_top) (use assms(3,4) in \<open>simp_all add: tw dw\<close>)
  then show ?thesis by (simp add: rmatch.simps(6) rmatch.simps(8))
qed

lemma re_image_unfold:
  "re_image =
     Cat (lit [33, 91]) (Cat (Grp (Many (isNot '']'') 0 None True))
       (Cat (lit [93, 40]) (Cat (Grp (Many (isNot '')'') 1 None True)) (lit [41]))))"
  by (simp add: re_image_def str_def js_def)

lemma re_link_unfold:
  "re_link =
     Cat (lit [91]) (Cat (Grp (Many (isNot '']'') 1 None True))
       (Cat (lit [93, 40]) (Cat (Grp (Many (isNot '')'') 1 None True)) (lit [41]))))"
  by (simp add: re_link_def str_def js_def)

lemma isNot_bracket: "isNot '']'' c \<longleftrightarrow> c \<noteq> 93"
  by (simp add: isNot_def js_def)

lemma isNot_paren: "isNot '')'' c \<longleftrightarrow> c \<noteq> 41"
  by (simp add: isNot_def js_def)

lemma match_here_from_rmatch:
  "rmatch r (prev, m @ t, []) Some = Some (p', t, caps) \<Longrightarrow> match_here r prev (m @ t) = Some (m, caps)"
  by (simp add: match_here_def)

lemma url_then_paren:
  assumes "41 \<notin> set url" and "url \<noteq> []"
  shows "rmatch (Cat (lit [93, 40]) (Cat (Grp (Many (isNot '')'') 1 None True)) (lit [41])))
           (p, 93 # 40 # url @ 41 # t, [a]) Some = Some (Some 41, t, [a, url])"
proof -
  have e: "rmatch (lit [41]) (q, 41 # t, [a] @ [url]) Some = Some (Some 41, t, [a, url])" for q
    using rmatch_lit_end [of "[41]" q t "[a, url]"] by simp
  have g: "rmatch (Cat (Grp (Many (isNot '')'') 1 None True)) (lit [41]))
             (q, url @ 41 # t, [a]) Some = Some (Some 41, t, [a, url])" for q
    by (rule rmatch_cat_grp_run)
       (use assms e in \<open>auto simp: isNot_paren Suc_le_eq\<close>)
  show ?thesis
    using rmatch_cat_lit [of "[93, 40]" _ p "url @ 41 # t" "[a]" Some] g by simp
qed

lemma match_image_head:
  assumes "93 \<notin> set alt" and "41 \<notin> set url" and "url \<noteq> []"
  shows "match_here re_image prev (js ''!['' @ alt @ js '']('' @ url @ js '')'' @ t) =
           Some (js ''!['' @ alt @ js '']('' @ url @ js '')'', [alt, url])"
proof -
  have g: "rmatch (Cat (Grp (Many (isNot '']'') 0 None True))
               (Cat (lit [93, 40]) (Cat (Grp (Many (isNot '')'') 1 None True)) (lit [41]))))
             (q, alt @ 93 # 40 # url @ 41 # t, []) Some = Some (Some 41, t, [alt, url])" for q
    by (rule rmatch_cat_grp_run)
       (use assms url_then_paren [OF assms(2,3), of _ t alt] in \<open>auto simp: isNot_bracket\<close>)
  have "rmatch re_image (prev, [33, 91] @ alt @ 93 # 40 # url @ 41 # t, []) Some
        = Some (Some 41, t, [alt, url])"
    unfolding re_image_unfold
    using rmatch_cat_lit [of "[33, 91]" _ prev "alt @ 93 # 40 # url @ 41 # t" "[]" Some] g
    by simp
  then have "rmatch re_image (prev, (js ''!['' @ alt @ js '']('' @ url @ js '')'') @ t, []) Some
        = Some (Some 41, t, [alt, url])"
    by (simp add: js_def)
  then have "match_here re_image prev ((js ''!['' @ alt @ js '']('' @ url @ js '')'') @ t) =
           Some (js ''!['' @ alt @ js '']('' @ url @ js '')'', [alt, url])"
    by (rule match_here_from_rmatch)
  then show ?thesis by simp
qed

lemma match_link_head:
  assumes "93 \<notin> set lbl" and "lbl \<noteq> []" and "41 \<notin> set url" and "url \<noteq> []"
  shows "match_here re_link prev (js ''['' @ lbl @ js '']('' @ url @ js '')'' @ t) =
           Some (js ''['' @ lbl @ js '']('' @ url @ js '')'', [lbl, url])"
proof -
  have g: "rmatch (Cat (Grp (Many (isNot '']'') 1 None True))
               (Cat (lit [93, 40]) (Cat (Grp (Many (isNot '')'') 1 None True)) (lit [41]))))
             (q, lbl @ 93 # 40 # url @ 41 # t, []) Some = Some (Some 41, t, [lbl, url])" for q
    by (rule rmatch_cat_grp_run)
       (use assms url_then_paren [OF assms(3,4), of _ t lbl] in \<open>auto simp: isNot_bracket Suc_le_eq\<close>)
  have "rmatch re_link (prev, [91] @ lbl @ 93 # 40 # url @ 41 # t, []) Some
        = Some (Some 41, t, [lbl, url])"
    unfolding re_link_unfold
    using rmatch_cat_lit [of "[91]" _ prev "lbl @ 93 # 40 # url @ 41 # t" "[]" Some] g
    by simp
  then have "rmatch re_link (prev, (js ''['' @ lbl @ js '']('' @ url @ js '')'') @ t, []) Some
        = Some (Some 41, t, [lbl, url])"
    by (simp add: js_def)
  then have "match_here re_link prev ((js ''['' @ lbl @ js '']('' @ url @ js '')'') @ t) =
           Some (js ''['' @ lbl @ js '']('' @ url @ js '')'', [lbl, url])"
    by (rule match_here_from_rmatch)
  then show ?thesis by simp
qed

lemma anchor_free_lit: "anchor_free (lit l)"
  by (induction l rule: lit.induct) (simp_all add: lit.simps)

lemma anchor_free_image: "anchor_free re_image"
  by (simp add: re_image_unfold anchor_free_lit)

lemma anchor_free_link: "anchor_free re_link"
  by (simp add: re_link_unfold anchor_free_lit)

lemma match_image_other: "c \<noteq> 33 \<Longrightarrow> match_here re_image prev (c # cs) = None"
  unfolding match_here_def re_image_unfold
  by (simp add: rmatch_cat_lit_fail)

lemma match_link_other: "c \<noteq> 91 \<Longrightarrow> match_here re_link prev (c # cs) = None"
  unfolding match_here_def re_link_unfold
  by (simp add: rmatch_cat_lit_fail)

lemma match_image_nil: "match_here re_image prev [] = None"
  unfolding match_here_def re_image_unfold
  by (simp add: rmatch_cat_lit_fail)

lemma match_link_nil: "match_here re_link prev [] = None"
  unfolding match_here_def re_link_unfold
  by (simp add: rmatch_cat_lit_fail)

lemma parseImages_head:
  assumes "93 \<notin> set alt" and "41 \<notin> set url" and "url \<noteq> []"
  shows "parseImages (js ''!['' @ alt @ js '']('' @ url @ js '')'' @ t) =
           imageHtml (js ''!['' @ alt @ js '']('' @ url @ js '')'') [alt, url] @ parseImages t"
  unfolding parseImages_def
  using replace_from_match [OF anchor_free_image,
      of "js ''!['' @ alt @ js '']('' @ url @ js '')''" t "[alt, url]" imageHtml]
    match_image_head [OF assms, of None t]
  by (simp add: js_def)

lemma parseLinks_head:
  assumes "93 \<notin> set lbl" and "lbl \<noteq> []" and "41 \<notin> set url" and "url \<noteq> []"
  shows "parseLinks (js ''['' @ lbl @ js '']('' @ url @ js '')'' @ t) =
           linkHtml (js ''['' @ lbl @ js '']('' @ url @ js '')'') [lbl, url] @ parseLinks t"
  unfolding parseLinks_def
  using replace_from_match [OF anchor_free_link,
      of "js ''['' @ lbl @ js '']('' @ url @ js '')''" t "[lbl, url]" linkHtml]
    match_link_head [OF assms, of None t]
  by (simp add: js_def)

lemma parseImages_copy: "c \<noteq> 33 \<Longrightarrow> parseImages (c # t) = c # parseImages t"
  unfolding parseImages_def
  by (rule replace_from_copy [OF anchor_free_image]) (rule match_image_other)

lemma parseLinks_copy: "c \<noteq> 91 \<Longrightarrow> parseLinks (c # t) = c # parseLinks t"
  unfolding parseLinks_def
  by (rule replace_from_copy [OF anchor_free_link]) (rule match_link_other)

lemma parseImages_nil: "parseImages [] = []"
  unfolding parseImages_def replace_all_def
  by (subst replace_from.simps) (simp add: match_image_nil)

lemma parseLinks_nil: "parseLinks [] = []"
  unfolding parseLinks_def replace_all_def
  by (subst replace_from.simps) (simp add: match_link_nil)

text \<open>A pass changes nothing in a text on which its expression matches nowhere.\<close>

lemma replace_from_id:
  assumes "\<And>p. match_here r p [] = None"
    and "\<And>p c cs. \<not> T c \<Longrightarrow> match_here r p (c # cs) = None"
    and "\<forall>c\<in>set s. \<not> T c"
  shows "replace_from r f prev s = s"
  using assms(3)
proof (induction s arbitrary: prev)
  case Nil
  show ?case by (subst replace_from.simps) (simp add: assms(1))
next
  case (Cons x xs)
  then show ?case by (subst replace_from.simps) (simp add: assms(2))
qed

lemma replace_all_id:
  assumes "\<And>p. match_here r p [] = None"
    and "\<And>p c cs. \<not> T c \<Longrightarrow> match_here r p (c # cs) = None"
    and "\<forall>c\<in>set s. \<not> T c"
  shows "replace_all r f s = s"
  unfolding replace_all_def using assms by (rule replace_from_id)

lemma replace_from_st_id:
  assumes "\<And>p. match_here r p [] = None"
    and "\<And>p c cs. \<not> T c \<Longrightarrow> match_here r p (c # cs) = None"
    and "\<forall>c\<in>set s. \<not> T c"
  shows "replace_from_st r f \<sigma> prev s = (s, \<sigma>)"
  using assms(3)
proof (induction s arbitrary: prev)
  case Nil
  show ?case by (subst replace_from_st.simps) (simp add: assms(1))
next
  case (Cons x xs)
  then show ?case by (subst replace_from_st.simps) (simp add: assms(2))
qed

text \<open>An expression that starts with \<^verbatim>\<open>^\<close> under the \<^verbatim>\<open>m\<close> flag matches only at
  the start of the text or after a line terminator.\<close>

lemma match_bol_inner:
  "\<not> isLineTerminator c \<Longrightarrow> match_here (Cat (Bol True) r) (Some c) s = None"
  by (simp add: match_here_def rmatch.simps)

lemma replace_from_bol_inner:
  assumes "\<forall>x\<in>set s. \<not> isLineTerminator x" and "\<not> isLineTerminator c"
  shows "replace_from (Cat (Bol True) r) f (Some c) s = s"
  using assms
proof (induction s arbitrary: c)
  case Nil
  then show ?case by (subst replace_from.simps) (simp add: match_bol_inner)
next
  case (Cons x xs)
  then show ?case by (subst replace_from.simps) (simp add: match_bol_inner)
qed

lemma replace_all_bol_id:
  assumes "\<forall>x\<in>set s. \<not> isLineTerminator x" and "match_here (Cat (Bol True) r) None s = None"
  shows "replace_all (Cat (Bol True) r) f s = s"
proof (cases s)
  case Nil
  with assms(2) show ?thesis
    unfolding replace_all_def by (subst replace_from.simps) simp
next
  case (Cons x xs)
  with assms show ?thesis
    unfolding replace_all_def
    by (subst replace_from.simps) (simp add: replace_from_bol_inner)
qed

lemma counts_none: "1 \<le> lo \<Longrightarrow> counts lo hi g 0 = []"
  by (cases hi) (auto simp: counts_def)

lemma rmatch_many_empty:
  "1 \<le> lo \<Longrightarrow> s = [] \<or> \<not> P (hd s) \<Longrightarrow> rmatch (Many P lo hi g) (prev, s, caps) k = None"
  by (cases s) (auto simp: rmatch.simps(3) counts_none)


subsection \<open>Passes that leave a text alone\<close>

lemma escapeHtml_id: "\<forall>c\<in>set s. \<not> isMeta c \<Longrightarrow> escapeHtml s = s"
  unfolding escapeHtml_def
  by (rule replace_all_id [where T = isMeta]) (simp_all add: match_here_def rmatch.simps)

lemma re_fence_unfold:
  "re_fence = Cat (lit [96, 96, 96]) (cats [Grp (Many (\<lambda>c. c \<noteq> 10) 0 None True), One (\<lambda>c. c = 10),
           Grp (Many isAny 0 None False), str ''```''])"
  by (simp add: re_fence_def str_def js_def)

lemma parseCodeBlocks_id:
  "\<forall>c\<in>set s. c \<noteq> 96 \<Longrightarrow> parseCodeBlocks ids s ctx = (s, ctx)"
  unfolding parseCodeBlocks_def replace_all_st_def re_fence_unfold
  by (rule replace_from_st_id [where T = "\<lambda>c. c = 96"])
     (simp_all add: match_here_def rmatch_cat_lit_fail)

lemma re_inline_code_unfold:
  "re_inline_code = Cat (lit [96]) (Cat (Grp (Many (isNot ''`'') 1 None True)) (lit [96]))"
  by (simp add: re_inline_code_def str_def js_def)

lemma parseInlineCode_id: "\<forall>c\<in>set s. c \<noteq> 96 \<Longrightarrow> parseInlineCode s = s"
  unfolding parseInlineCode_def re_inline_code_unfold
  by (rule replace_all_id [where T = "\<lambda>c. c = 96"])
     (simp_all add: match_here_def rmatch_cat_lit_fail)

lemma re_header_unfold:
  "re_header = Cat (Bol True) (Cat (Grp (Many (isOneOf ''#'') 1 (Some 6) True))
     (cats [Many isWhiteSpace 1 None True, Grp (Many isDot 1 None True), Eol True]))"
  by (simp add: re_header_def)

lemma parseHeaders_id:
  assumes "\<forall>c\<in>set s. \<not> isLineTerminator c" and "s = [] \<or> hd s \<noteq> 35"
  shows "parseHeaders s = s"
proof -
  have "s = [] \<or> \<not> isOneOf ''#'' (hd s)"
    using assms(2) by (auto simp: isOneOf_def js_def)
  then have "match_here (Cat (Bol True) (Cat (Grp (Many (isOneOf ''#'') 1 (Some 6) True))
     (cats [Many isWhiteSpace 1 None True, Grp (Many isDot 1 None True), Eol True]))) None s = None"
    by (simp add: match_here_def rmatch.simps(4,6,8) rmatch_many_empty)
  with assms(1) show ?thesis
    unfolding parseHeaders_def re_header_unfold by (rule replace_all_bol_id)
qed

lemma re_rule_unfold:
  "re_rule = Cat (Bol True) (Cat (lit [45, 45]) (Cat (Many (isOneOf ''-'') 1 None True) (Eol True)))"
  by (simp add: re_rule_def str_def js_def)

lemma rule_id:
  assumes "\<forall>c\<in>set s. \<not> isLineTerminator c" and "s = [] \<or> hd s \<noteq> 45"
  shows "replace_all re_rule f s = s"
proof -
  have "match_here (Cat (Bol True) (Cat (lit [45, 45]) (Cat (Many (isOneOf ''-'') 1 None True) (Eol True))))
          None s = None"
    using assms(2) by (simp add: match_here_def rmatch.simps(4,6) rmatch_lit_hd)
  with assms(1) show ?thesis
    unfolding re_rule_unfold by (rule replace_all_bol_id)
qed

lemma split_from_none:
  "sep \<noteq> [] \<Longrightarrow> hd sep \<notin> set s \<Longrightarrow> split_from sep acc s = [acc @ s]"
proof (induction s arbitrary: acc)
  case Nil
  then show ?case by simp
next
  case (Cons x xs)
  then have "\<not> startsWith (x # xs) sep"
    by (cases sep) (auto simp: startsWith_def)
  with Cons show ?case by simp
qed

lemma split_none: "sep \<noteq> [] \<Longrightarrow> hd sep \<notin> set s \<Longrightarrow> split s sep = [s]"
  by (simp add: split_def split_from_none)

lemma parseBlockquotes_id:
  assumes "10 \<notin> set s" and "s = [] \<or> hd s \<noteq> 62"
  shows "parseBlockquotes s = s"
proof -
  have "\<not> startsWith s (js ''> '')"
    using assms(2) by (cases s) (auto simp: startsWith_def js_def)
  then show ?thesis
    using assms(1) by (simp add: parseBlockquotes_def split_none quote_line_def)
qed

lemma search_from_bol_inner: "search_from (Cat (Bol False) r) (Some c) s = None"
  by (induction s arbitrary: c) (simp_all add: match_here_def rmatch.simps)

lemma re_match_bol:
  "re_match (Cat (Bol False) r) s = match_here (Cat (Bol False) r) None s"
  by (cases s) (simp_all add: re_match_def search_from_bol_inner split: option.splits)

lemma re_ul_unfold:
  "re_ul = Cat (Bol False) (Cat (One (isOneOf ''*-''))
     (cats [Many isWhiteSpace 1 None True, Grp (Many isDot 1 None True), Eol False]))"
  by (simp add: re_ul_def)

lemma re_ol_unfold:
  "re_ol = Cat (Bol False) (Cat (Many isDigit 1 None True)
     (cats [str ''.'', Many isWhiteSpace 1 None True, Grp (Many isDot 1 None True), Eol False]))"
  by (simp add: re_ol_def)

lemma parseLists_id:
  assumes "10 \<notin> set s" and "s = [] \<or> (hd s \<noteq> 42 \<and> hd s \<noteq> 45 \<and> \<not> isDigit (hd s))"
  shows "parseLists s = s"
proof -
  have ul: "re_match re_ul s = None"
    unfolding re_ul_unfold re_match_bol
    using assms(2) by (cases s) (auto simp: match_here_def rmatch.simps isOneOf_def js_def)
  have "s = [] \<or> \<not> isDigit (hd s)" using assms(2) by auto
  then have "rmatch (Many isDigit 1 None True) (None, s, []) k = None" for k
    by (intro rmatch_many_empty) auto
  then have ol: "re_match re_ol s = None"
    unfolding re_ol_unfold re_match_bol
    by (simp add: match_here_def rmatch.simps(4,6))
  show ?thesis
    using assms(1) by (simp add: parseLists_def split_none list_line_def ul ol)
qed

lemma re_delim_unfold:
  "d \<noteq> [] \<Longrightarrow> re_delim d c = Cat (lit (js d)) (Cat (Grp (Many (isNot c) 1 None True)) (lit (js d)))"
  by (simp add: re_delim_def str_def)

lemma delim_id:
  assumes "d \<noteq> []" and "hd (js d) \<notin> set s"
  shows "replace_all (re_delim d c) f s = s"
  unfolding re_delim_unfold [OF assms(1)]
proof (rule replace_all_id [where T = "\<lambda>x. x = hd (js d)"])
  show "match_here (Cat (lit (js d)) (Cat (Grp (Many (isNot c) 1 None True)) (lit (js d)))) p [] = None" for p
    using assms(1) by (simp add: match_here_def rmatch_cat_lit_fail js_def)
  show "match_here (Cat (lit (js d)) (Cat (Grp (Many (isNot c) 1 None True)) (lit (js d)))) p (x # xs) = None"
    if "\<not> x = hd (js d)" for p x xs
    using assms(1) that by (simp add: match_here_def rmatch_cat_lit_fail js_def)
  show "\<forall>x\<in>set s. \<not> x = hd (js d)" using assms(2) by auto
qed

lemma parseEmphasis_id: "42 \<notin> set s \<Longrightarrow> 95 \<notin> set s \<Longrightarrow> parseEmphasis s = s"
  by (simp add: parseEmphasis_def delim_id js_def)

lemma parseStrikethrough_id: "126 \<notin> set s \<Longrightarrow> parseStrikethrough s = s"
  by (simp add: parseStrikethrough_def delim_id js_def)


lemma trim_id:
  assumes "s \<noteq> []" and "\<not> isWhiteSpace (hd s)" and "\<not> isWhiteSpace (last s)"
  shows "trim s = s"
  using trim_core [OF assms, of "[]" "[]"] by simp

lemma set_trim: "set (trim u) \<subseteq> set u"
  unfolding trim_def dropTrail_def
  by (auto dest!: set_dropWhileD)

lemma sanitizeUrl_cases: "sanitizeUrl u = [] \<or> sanitizeUrl u = trim u"
  by (simp add: sanitizeUrl_def Let_def split: option.splits)

lemma set_sanitizeUrl: "set (sanitizeUrl u) \<subseteq> set u"
  using sanitizeUrl_cases [of u] set_trim [of u] by auto

lemma rmatch_many_skip:
  "s = [] \<or> \<not> P (hd s) \<Longrightarrow> rmatch (Many P 0 hi g) (prev, s, caps) k = k (prev, s, caps)"
  by (cases s; cases hi) (auto simp: rmatch.simps(3) counts_def advance_def split: option.splits)

lemma rmatch_many_final:
  "lo \<le> length (takeWhile P s) \<Longrightarrow>
   rmatch (Many P lo None True) (prev, s, caps) Some =
     Some (advance prev s (length (takeWhile P s)), dropWhile P s, caps)"
  by (rule rmatch_many_greedy_top) auto

lemma re_tag_unfold:
  "re_tag = Cat (Bol False) (Cat (lit [60]) (Cat (Many (isOneOf ''/'') 0 (Some 1) True)
              (Cat (One isAlpha) (Many isAlnum 0 None True))))"
  by (simp add: re_tag_def str_def js_def)

lemma re_test_tag:
  assumes "isAlpha a"
  shows "re_test re_tag (60 # a # rest)"
proof -
  have "\<not> isOneOf ''/'' a"
    using assms by (auto simp: isOneOf_def js_def isAlpha_def)
  then have "rmatch re_tag (None, 60 # a # rest, []) Some \<noteq> None"
    unfolding re_tag_unfold
    using assms
    by (simp add: rmatch.simps(2,4,6) lit.simps rmatch_many_skip rmatch_many_final)
  then have "match_here re_tag None (60 # a # rest) \<noteq> None"
    by (auto simp: match_here_def)
  then show ?thesis
    by (auto simp: re_test_def re_match_def)
qed

lemma parseParagraphs_tag:
  assumes "10 \<notin> set rest" and "isAlpha a" and "rest \<noteq> []" and "last rest = 62"
  shows "parseParagraphs (60 # a # rest) = 60 # a # rest"
proof -
  have a10: "a \<noteq> 10" using assms(2) by (auto simp: isAlpha_def)
  have t: "trim (60 # a # rest) = 60 # a # rest"
    using assms(3,4) by (intro trim_id) (auto simp: isWhiteSpace_def isLineTerminator_def)
  have "split (60 # a # rest) [10, 10] = [60 # a # rest]"
    using assms(1) a10 by (intro split_none) auto
  then show ?thesis
    using re_test_tag [OF assms(2), of rest]
    by (simp add: parseParagraphs_def wrapBlock_def t)
qed

lemma restore_empty: "restoreCodeBlocks html \<lparr>codeBlocks = []\<rparr> = html"
  by (simp add: restoreCodeBlocks_def)

text \<open>The passes before the image pass leave alone a text that starts with \<^verbatim>\<open>!\<close> or
  \<^verbatim>\<open>[\<close> and holds no metacharacter, backtick or line terminator; the passes after
  the link pass leave alone a tag that holds no line feed, asterisk, underscore or
  tilde.\<close>

lemma parse_outline:
  assumes "md \<noteq> []" and "hd md = 33 \<or> hd md = 91"
    and "\<forall>c\<in>set md. \<not> isMeta c \<and> c \<noteq> 96 \<and> \<not> isLineTerminator c"
  shows "parse ids md =
           restoreCodeBlocks
             (parseParagraphs (parseStrikethrough (parseEmphasis (parseLinks (parseImages md)))))
             \<lparr>codeBlocks = []\<rparr>"
proof -
  have e: "escapeHtml md = md" using assms(3) by (simp add: escapeHtml_id)
  have c: "parseCodeBlocks ids md ctx = (md, ctx)" for ctx
    using assms(3) by (simp add: parseCodeBlocks_id)
  have i: "parseInlineCode md = md" using assms(3) by (simp add: parseInlineCode_id)
  have h: "parseHeaders md = md" using assms(2,3) by (intro parseHeaders_id) auto
  have r: "replace_all re_rule f md = md" for f using assms(2,3) by (intro rule_id) auto
  have ten: "10 \<notin> set md" using assms(3) by (auto simp: isLineTerminator_def)
  have b: "parseBlockquotes md = md" using assms(2) ten by (intro parseBlockquotes_id) auto
  have l: "parseLists md = md"
    using assms(2) ten by (intro parseLists_id) (auto simp: isDigit_def)
  show ?thesis
    using assms(1) by (simp add: parse_def e c i h r b l)
qed

lemma after_links:
  assumes "\<forall>c\<in>set rest. c \<noteq> 10 \<and> c \<noteq> 42 \<and> c \<noteq> 95 \<and> c \<noteq> 126"
    and "isAlpha a" and "rest \<noteq> []" and "last rest = 62"
  shows "restoreCodeBlocks
           (parseParagraphs (parseStrikethrough (parseEmphasis (60 # a # rest))))
           \<lparr>codeBlocks = []\<rparr> = 60 # a # rest"
proof -
  have a: "a \<noteq> 42" "a \<noteq> 95" "a \<noteq> 126"
    using assms(2) by (auto simp: isAlpha_def)
  have "parseEmphasis (60 # a # rest) = 60 # a # rest"
    using assms(1) a by (intro parseEmphasis_id) auto
  moreover have "parseStrikethrough (60 # a # rest) = 60 # a # rest"
    using assms(1) a by (intro parseStrikethrough_id) auto
  moreover have "parseParagraphs (60 # a # rest) = 60 # a # rest"
    using assms by (intro parseParagraphs_tag) auto
  ultimately show ?thesis by (simp add: restore_empty)
qed

lemma parseImages_none: "33 \<notin> set s \<Longrightarrow> parseImages s = s"
  unfolding parseImages_def
  by (rule replace_all_id [where T = "\<lambda>c. c = 33"])
     (auto simp: match_image_nil match_image_other)

lemma parseLinks_none: "91 \<notin> set s \<Longrightarrow> parseLinks s = s"
  unfolding parseLinks_def
  by (rule replace_all_id [where T = "\<lambda>c. c = 91"])
     (auto simp: match_link_nil match_link_other)

lemma rmatch_cat_lit2_fail:
  "x \<noteq> d \<Longrightarrow> rmatch (Cat (lit [c, d]) r) (prev, c # x # t, caps) k = None"
  by (simp add: rmatch.simps lit.simps)

text \<open>A bracketed text that is not followed by \<^verbatim>\<open>(\<close> is no link.\<close>

lemma match_link_unclosed:
  assumes "\<forall>c\<in>set a. c \<noteq> 93" and "x \<noteq> 40"
  shows "match_here re_link prev (91 # a @ 93 # x # t) = None"
proof -
  let ?R = "Cat (lit [93, 40]) (Cat (Grp (Many (isNot '')'') 1 None True)) (lit [41]))"
  let ?s = "a @ 93 # x # t"
  let ?K = "\<lambda>(prev', s', caps'). rmatch ?R (prev', s', caps' @ [take (length ?s - length s') ?s]) Some"
  have tw: "takeWhile (isNot '']'') ?s = a" and dw: "dropWhile (isNot '']'') ?s = 93 # x # t"
    using assms(1) by (simp_all add: takeWhile_stop dropWhile_stop isNot_bracket)
  have inner: "?K (advance p ?s n, drop n ?s, []) = None"
    if "n < length (takeWhile (isNot '']'') ?s)" for n p
  proof -
    from that have "drop n ?s \<noteq> []" and "isNot '']'' (hd (drop n ?s))"
      by (rule drop_in_run)+
    then have "drop n ?s = [] \<or> hd (drop n ?s) \<noteq> hd [93, 40::nat]"
      by (simp add: isNot_bracket)
    then show ?thesis by (simp add: rmatch_cat_lit_fail)
  qed
  have top: "?K (q, 93 # x # t, []) = None" for q
    using assms(2) by (simp add: rmatch_cat_lit2_fail)
  have "rmatch (Many (isNot '']'') 1 None True) (p, ?s, []) ?K = None" for p
    using rmatch_many_greedy [of 1 "isNot '']''" ?s ?K p "[]"] inner top
    by (simp add: tw dw)
  then have "rmatch (Cat (Grp (Many (isNot '']'') 1 None True)) ?R) (p, ?s, []) Some = None" for p
    by (simp add: rmatch.simps(6,8))
  then have "rmatch re_link (prev, [91] @ ?s, []) Some = None"
    unfolding re_link_unfold
    using rmatch_cat_lit [of "[91]" _ prev ?s "[]" Some] by simp
  then show ?thesis by (simp add: match_here_def)
qed

lemma parseLinks_unclosed:
  assumes "\<forall>c\<in>set a. c \<noteq> 93 \<and> c \<noteq> 91" and "x \<noteq> 40" and "91 \<notin> set (x # t)"
  shows "parseLinks (91 # a @ 93 # x # t) = 91 # a @ 93 # x # t"
proof -
  have "match_here re_link None (91 # a @ 93 # x # t) = None"
    using assms(1,2) by (intro match_link_unclosed) auto
  then have "parseLinks (91 # a @ 93 # x # t) = 91 # parseLinks (a @ 93 # x # t)"
    unfolding parseLinks_def by (rule replace_from_copy [OF anchor_free_link])
  moreover have "parseLinks (a @ 93 # x # t) = a @ 93 # x # t"
    using assms(1,3) by (intro parseLinks_none) auto
  ultimately show ?thesis by simp
qed


lemma plainText_ball:
  "plainText s \<Longrightarrow>
     \<forall>c\<in>set s. \<not> isLineTerminator c \<and> \<not> isMeta c \<and> c \<noteq> 96 \<and> c \<noteq> 42 \<and> c \<noteq> 95 \<and> c \<noteq> 126 \<and>
       c \<noteq> 33 \<and> c \<noteq> 91 \<and> c \<noteq> 93 \<and> c \<noteq> 40 \<and> c \<noteq> 41 \<and> c \<noteq> 10"
  by (auto simp: plainText_def js_def isLineTerminator_def)

lemma plainText_sanitizeUrl: "plainText url \<Longrightarrow> plainText (sanitizeUrl url)"
  using set_sanitizeUrl [of url] by (auto simp: plainText_def)

lemma imageHtml_eq:
  \<open>imageHtml m [alt, url] =
     (if sanitizeUrl url = [] then js ''<span>[Image: '' @ alt @ js '']</span>''
      else js ''<img src="'' @ sanitizeUrl url @ js ''" alt="'' @ alt @ js ''">'')\<close>
  by (simp add: imageHtml_def)

lemma linkHtml_eq:
  \<open>linkHtml m [lbl, url] =
     (if sanitizeUrl url = [] then js ''<span>['' @ lbl @ js '']</span>''
      else js ''<a href="'' @ sanitizeUrl url @ js ''">'' @ lbl @ js ''</a>'')\<close>
  by (simp add: linkHtml_def)

lemma parse_image_plain:
  assumes "plainText alt" and "plainText url" and "url \<noteq> []"
  shows \<open>parse ids (js ''!['' @ alt @ js '']('' @ url @ js '')'') =
     (if sanitizeUrl url = [] then js ''<span>[Image: '' @ alt @ js '']</span>''
      else js ''<img src="'' @ sanitizeUrl url @ js ''" alt="'' @ alt @ js ''">'')\<close>
proof -
  let ?md = "js ''!['' @ alt @ js '']('' @ url @ js '')''"
  note a = plainText_ball [OF assms(1)]
  note u = plainText_ball [OF assms(2)]
  note su = plainText_ball [OF plainText_sanitizeUrl [OF assms(2)]]
  have "parse ids ?md =
           restoreCodeBlocks
             (parseParagraphs (parseStrikethrough (parseEmphasis (parseLinks (parseImages ?md)))))
             \<lparr>codeBlocks = []\<rparr>"
    by (rule parse_outline)
       (use a u in \<open>auto simp: js_def isMeta_def isLineTerminator_def\<close>)
  moreover have "parseImages ?md = imageHtml ?md [alt, url]"
    using parseImages_head [of alt url "[]"] a u assms(3)
    by (auto simp: parseImages_nil)
  ultimately have p: "parse ids ?md =
           restoreCodeBlocks
             (parseParagraphs (parseStrikethrough (parseEmphasis (parseLinks (imageHtml ?md [alt, url])))))
             \<lparr>codeBlocks = []\<rparr>"
    by simp
  show ?thesis
  proof (cases "sanitizeUrl url = []")
    case True
    have "parseLinks (91 # (js ''Image: '' @ alt) @ 93 # 60 # js ''/span>'') =
            91 # (js ''Image: '' @ alt) @ 93 # 60 # js ''/span>''"
      by (rule parseLinks_unclosed) (use a in \<open>auto simp: js_def\<close>)
    then have l: "parseLinks (js ''<span>[Image: '' @ alt @ js '']</span>'') =
            js ''<span>[Image: '' @ alt @ js '']</span>''"
      by (simp add: js_def parseLinks_copy)
    have "restoreCodeBlocks
           (parseParagraphs (parseStrikethrough (parseEmphasis
              (60 # 115 # (js ''pan>[Image: '' @ alt @ js '']</span>'')))))
           \<lparr>codeBlocks = []\<rparr> = 60 # 115 # (js ''pan>[Image: '' @ alt @ js '']</span>'')"
      by (rule after_links) (use a in \<open>auto simp: js_def isAlpha_def\<close>)
    then show ?thesis
      using True p l by (simp add: imageHtml_eq js_def)
  next
    case False
    have l: \<open>parseLinks (js ''<img src="'' @ sanitizeUrl url @ js ''" alt="'' @ alt @ js ''">'') =
            js ''<img src="'' @ sanitizeUrl url @ js ''" alt="'' @ alt @ js ''">''\<close>
      by (rule parseLinks_none) (use a su in \<open>auto simp: js_def\<close>)
    have \<open>restoreCodeBlocks
           (parseParagraphs (parseStrikethrough (parseEmphasis
              (60 # 105 # (js ''mg src="'' @ sanitizeUrl url @ js ''" alt="'' @ alt @ js ''">'')))))
           \<lparr>codeBlocks = []\<rparr> =
           60 # 105 # (js ''mg src="'' @ sanitizeUrl url @ js ''" alt="'' @ alt @ js ''">'')\<close>
      by (rule after_links)
         (use a su in \<open>auto simp: js_def isAlpha_def\<close>)
    then show ?thesis
      using False p l by (simp add: imageHtml_eq js_def)
  qed
qed

lemma parse_link_plain:
  assumes "plainText lbl" and "lbl \<noteq> []" and "plainText url" and "url \<noteq> []"
  shows \<open>parse ids (js ''['' @ lbl @ js '']('' @ url @ js '')'') =
     (if sanitizeUrl url = [] then js ''<span>['' @ lbl @ js '']</span>''
      else js ''<a href="'' @ sanitizeUrl url @ js ''">'' @ lbl @ js ''</a>'')\<close>
proof -
  let ?md = "js ''['' @ lbl @ js '']('' @ url @ js '')''"
  note a = plainText_ball [OF assms(1)]
  note u = plainText_ball [OF assms(3)]
  note su = plainText_ball [OF plainText_sanitizeUrl [OF assms(3)]]
  have "parse ids ?md =
           restoreCodeBlocks
             (parseParagraphs (parseStrikethrough (parseEmphasis (parseLinks (parseImages ?md)))))
             \<lparr>codeBlocks = []\<rparr>"
    by (rule parse_outline)
       (use a u in \<open>auto simp: js_def isMeta_def isLineTerminator_def\<close>)
  moreover have "parseImages ?md = ?md"
    by (rule parseImages_none) (use a u in \<open>auto simp: js_def\<close>)
  moreover have "parseLinks ?md = linkHtml ?md [lbl, url]"
    using parseLinks_head [of lbl url "[]"] a u assms(2,4)
    by (auto simp: parseLinks_nil)
  ultimately have p: "parse ids ?md =
           restoreCodeBlocks
             (parseParagraphs (parseStrikethrough (parseEmphasis (linkHtml ?md [lbl, url]))))
             \<lparr>codeBlocks = []\<rparr>"
    by simp
  show ?thesis
  proof (cases "sanitizeUrl url = []")
    case True
    have "restoreCodeBlocks
           (parseParagraphs (parseStrikethrough (parseEmphasis
              (60 # 115 # (js ''pan>['' @ lbl @ js '']</span>'')))))
           \<lparr>codeBlocks = []\<rparr> = 60 # 115 # (js ''pan>['' @ lbl @ js '']</span>'')"
      by (rule after_links) (use a in \<open>auto simp: js_def isAlpha_def\<close>)
    then show ?thesis
      using True p by (simp add: linkHtml_eq js_def)
  next
    case False
    have \<open>restoreCodeBlocks
           (parseParagraphs (parseStrikethrough (parseEmphasis
              (60 # 97 # (js '' href="'' @ sanitizeUrl url @ js ''">'' @ lbl @ js ''</a>'')))))
           \<lparr>codeBlocks = []\<rparr> =
           60 # 97 # (js '' href="'' @ sanitizeUrl url @ js ''">'' @ lbl @ js ''</a>'')\<close>
      by (rule after_links)
         (use a su in \<open>auto simp: js_def isAlpha_def\<close>)
    then show ?thesis
      using False p by (simp add: linkHtml_eq js_def)
  qed
qed

subsection \<open>A fenced block and its placeholder\<close>

lemma match_one: "match_here (One P) prev (c # cs) = (if P c then Some ([c], []) else None)"
  by (simp add: match_here_def rmatch.simps)

lemma match_one_nil: "match_here (One P) prev [] = None"
  by (simp add: match_here_def rmatch.simps)

lemma replace_from_one:
  "replace_from (One P) f prev s = concat (map (\<lambda>c. if P c then f [c] [] else [c]) s)"
proof (induction s arbitrary: prev)
  case Nil
  show ?case by (subst replace_from.simps) (simp add: match_one_nil)
next
  case (Cons x xs)
  show ?case by (subst replace_from.simps) (simp add: match_one Cons.IH)
qed

lemma escapeHtml_map:
  "escapeHtml s = concat (map (\<lambda>c. if isMeta c then parser_map [c] else [c]) s)"
  by (simp add: escapeHtml_def replace_all_def replace_from_one)

lemma escapeHtml_append: "escapeHtml (a @ b) = escapeHtml a @ escapeHtml b"
  by (simp add: escapeHtml_map)

lemma first_some_append:
  "first_some f (xs @ ys) = (case first_some f xs of Some r \<Rightarrow> Some r | None \<Rightarrow> first_some f ys)"
  by (induction xs) (auto split: option.splits)

lemma first_some_upt:
  assumes "lo \<le> m" and "m \<le> M" and "\<And>n. lo \<le> n \<Longrightarrow> n < m \<Longrightarrow> f n = None" and "f m = Some y"
  shows "first_some f [lo ..< Suc M] = Some y"
proof -
  have "[lo ..< m + (Suc M - m)] = [lo ..< m] @ [m ..< m + (Suc M - m)]"
    using assms(1) by (rule upt_add_eq_append)
  moreover have "m + (Suc M - m) = Suc M" using assms(2) by simp
  moreover have "[m ..< Suc M] = m # [Suc m ..< Suc M]"
    using assms(2) by (simp add: upt_conv_Cons)
  ultimately have "[lo ..< Suc M] = [lo ..< m] @ m # [Suc m ..< Suc M]"
    by simp
  moreover have "first_some f [lo ..< m] = None"
    using assms(3) by (intro first_some_all_None) auto
  ultimately show ?thesis using assms(4) by (simp add: first_some_append)
qed

text \<open>A lazy run stops at the first place where the rest of the expression matches.\<close>

lemma rmatch_many_lazy:
  assumes "lo \<le> m" and "m \<le> length (takeWhile P s)"
    and "\<And>n. lo \<le> n \<Longrightarrow> n < m \<Longrightarrow> k (advance prev s n, drop n s, caps) = None"
    and "k (advance prev s m, drop m s, caps) = Some y"
  shows "rmatch (Many P lo None False) (prev, s, caps) k = Some y"
proof -
  have "counts lo None False (length (takeWhile P s)) = [lo ..< Suc (length (takeWhile P s))]"
    by (simp add: counts_def Let_def)
  then show ?thesis
    unfolding rmatch.simps(3)
    using first_some_upt [of lo m "length (takeWhile P s)"
        "\<lambda>n. k (advance prev s n, drop n s, caps)" y] assms
    by simp
qed


lemma re_fence_unfold2:
  "re_fence =
     Cat (lit [96, 96, 96]) (Cat (Grp (Many (\<lambda>c. c \<noteq> 10) 0 None True))
       (Cat (One (\<lambda>c. c = 10)) (Cat (Grp (Many isAny 0 None False)) (lit [96, 96, 96]))))"
  by (simp add: re_fence_def str_def js_def)

lemma takeWhile_isAny: "takeWhile isAny s = s"
  by (simp add: isAny_def)

lemma startsWith_Nil [simp]: "startsWith s []"
  by (simp add: startsWith_def)

lemma startsWith_Nil_Cons [simp]: "\<not> startsWith [] (x # xs)"
  by (simp add: startsWith_def)

lemma startsWith_Cons [simp]: "startsWith (c # cs) (x # xs) \<longleftrightarrow> c = x \<and> startsWith cs xs"
  by (auto simp: startsWith_def)

lemma rmatch_lit_fail:
  "l \<noteq> [] \<Longrightarrow> \<not> startsWith s l \<Longrightarrow> rmatch (lit l) (p, s, caps) k = None"
proof (induction l arbitrary: s p rule: lit.induct)
  case 1
  then show ?case by simp
next
  case (2 c)
  then show ?case by (cases s) (auto simp: lit.simps rmatch.simps)
next
  case (3 c v va)
  then show ?case by (cases s) (auto simp: lit.simps rmatch.simps)
qed

lemma fence_body:
  assumes "\<And>n. n < length C \<Longrightarrow> \<not> startsWith (drop n (C @ [96, 96, 96] @ t)) [96, 96, 96]"
  shows "rmatch (Cat (Grp (Many isAny 0 None False)) (lit [96, 96, 96]))
           (p, C @ [96, 96, 96] @ t, [g]) Some = Some (Some 96, t, [g, C])"
proof -
  let ?s = "C @ [96, 96, 96] @ t"
  let ?K = "\<lambda>(prev', s', caps').
              rmatch (lit [96, 96, 96]) (prev', s', caps' @ [take (length ?s - length s') ?s]) Some"
  have "rmatch (Many isAny 0 None False) (p, ?s, [g]) ?K = Some (Some 96, t, [g, C])"
  proof (rule rmatch_many_lazy [where m = "length C"])
    show "0 \<le> length C" by simp
    show "length C \<le> length (takeWhile isAny ?s)" by (simp add: takeWhile_isAny)
    show "?K (advance p ?s n, drop n ?s, [g]) = None" if "n < length C" for n
      using assms [OF that] by (simp add: rmatch_lit_fail)
    show "?K (advance p ?s (length C), drop (length C) ?s, [g]) = Some (Some 96, t, [g, C])"
      using rmatch_lit_end [of "[96, 96, 96]" _ t "[g, C]"] by simp
  qed
  then show ?thesis by (simp add: rmatch.simps(6,8))
qed

lemma match_fence_head:
  assumes "\<And>n. n < length C \<Longrightarrow> \<not> startsWith (drop n (C @ [96, 96, 96] @ t)) [96, 96, 96]"
  shows "match_here re_fence prev (([96, 96, 96, 10] @ C @ [96, 96, 96]) @ t) =
           Some ([96, 96, 96, 10] @ C @ [96, 96, 96], [[], C])"
proof -
  have b: "rmatch (Cat (One (\<lambda>c. c = 10)) (Cat (Grp (Many isAny 0 None False)) (lit [96, 96, 96])))
             (p, 10 # C @ [96, 96, 96] @ t, [] @ [[]]) Some = Some (Some 96, t, [[], C])" for p
    using fence_body [of C t _ "[]"] assms by (simp add: rmatch.simps(2,6))
  have g: "rmatch (Cat (Grp (Many (\<lambda>c. c \<noteq> 10) 0 None True))
               (Cat (One (\<lambda>c. c = 10)) (Cat (Grp (Many isAny 0 None False)) (lit [96, 96, 96]))))
             (p, [] @ 10 # C @ [96, 96, 96] @ t, []) Some = Some (Some 96, t, [[], C])" for p
    by (rule rmatch_cat_grp_run) (use b in auto)
  have "rmatch re_fence (prev, [96, 96, 96] @ 10 # C @ [96, 96, 96] @ t, []) Some
          = Some (Some 96, t, [[], C])"
    unfolding re_fence_unfold2
    using rmatch_cat_lit [of "[96, 96, 96]" _ prev "10 # C @ [96, 96, 96] @ t" "[]" Some] g
    by simp
  then have "rmatch re_fence (prev, ([96, 96, 96, 10] @ C @ [96, 96, 96]) @ t, []) Some
          = Some (Some 96, t, [[], C])"
    by simp
  then show ?thesis by (rule match_here_from_rmatch)
qed

lemma match_fence_nil: "match_here re_fence prev [] = None"
  unfolding match_here_def re_fence_unfold2
  by (simp add: rmatch_cat_lit_fail)

lemma replace_all_st_whole:
  assumes "match_here r None s = Some (s, caps)" and "s \<noteq> []"
    and "\<And>p. match_here r p [] = None"
  shows "replace_all_st r f \<sigma> s = f \<sigma> s caps"
proof -
  have e: "replace_from_st r f \<sigma>' p [] = ([], \<sigma>')" for \<sigma>' p
    by (subst replace_from_st.simps) (simp add: assms(3))
  show ?thesis
    unfolding replace_all_st_def
    by (subst replace_from_st.simps) (simp add: assms(1,2) e split: prod.splits)
qed

lemma parseCodeBlocks_fence:
  assumes "\<And>n. n < length C \<Longrightarrow> \<not> startsWith (drop n (C @ [96, 96, 96])) [96, 96, 96]"
  shows "parseCodeBlocks ids ([96, 96, 96, 10] @ C @ [96, 96, 96]) \<lparr>codeBlocks = []\<rparr> =
           (generatePlaceholder (js ''CODE_BLOCK'') (ids 0),
            \<lparr>codeBlocks = [\<lparr>placeholder = generatePlaceholder (js ''CODE_BLOCK'') (ids 0),
                             content = js ''<pre><code>'' @ trim C @ js ''</code></pre>''\<rparr>]\<rparr>)"
proof -
  have m: "match_here re_fence None ([96, 96, 96, 10] @ C @ [96, 96, 96]) =
           Some ([96, 96, 96, 10] @ C @ [96, 96, 96], [[], C])"
    using match_fence_head [of C "[]" None] assms by simp
  show ?thesis
    unfolding parseCodeBlocks_def
    by (subst replace_all_st_whole [OF m]) (simp_all add: match_fence_nil Let_def)
qed

lemma anchor_free_delim: "anchor_free (re_delim d c)"
  by (cases d) (simp_all add: re_delim_def str_def anchor_free_lit cats.simps)

lemma delim_lit_fail:
  "d \<noteq> [] \<Longrightarrow> \<not> startsWith s (js d) \<Longrightarrow> match_here (re_delim d c) p s = None"
  by (simp add: re_delim_unfold match_here_def rmatch.simps(6) rmatch_lit_fail js_def)

text \<open>A delimiter, a run and no delimiter after the run: no match. The delimiter is made
  of the character that the run excludes.\<close>

lemma delim_unclosed:
  assumes "d \<noteq> []" and "\<forall>x\<in>set a. isNot c x" and "rest = [] \<or> \<not> isNot c (hd rest)"
    and "a = [] \<or> \<not> startsWith rest (js d)" and "\<not> isNot c (hd (js d))"
  shows "match_here (re_delim d c) p (js d @ a @ rest) = None"
proof -
  let ?s = "a @ rest"
  let ?K = "\<lambda>(prev', s', caps').
              rmatch (lit (js d)) (prev', s', caps' @ [take (length ?s - length s') ?s]) Some"
  have jd: "js d \<noteq> []" using assms(1) by (simp add: js_def)
  have tw: "takeWhile (isNot c) ?s = a"
    using assms(2,3) by (cases rest) (auto simp: takeWhile_stop)
  have dw: "dropWhile (isNot c) ?s = rest"
    using assms(2,3) by (cases rest) (auto simp: dropWhile_stop)
  have inner: "?K (advance q ?s n, drop n ?s, []) = None"
    if "n < length (takeWhile (isNot c) ?s)" for n q
  proof -
    from that have "drop n ?s \<noteq> []" and "isNot c (hd (drop n ?s))"
      by (rule drop_in_run)+
    with assms(5) have "drop n ?s = [] \<or> hd (drop n ?s) \<noteq> hd (js d)" by auto
    with jd show ?thesis by (simp add: rmatch_lit_hd)
  qed
  have top: "1 \<le> length a \<Longrightarrow> ?K (q, rest, []) = None" for q
    using assms(4) jd by (cases a) (auto simp: rmatch_lit_fail)
  have "rmatch (Many (isNot c) 1 None True) (q, ?s, []) ?K = None" for q
    using rmatch_many_greedy [of 1 "isNot c" ?s ?K q "[]"] inner top
    by (simp add: tw dw)
  then have "rmatch (Cat (Grp (Many (isNot c) 1 None True)) (lit (js d))) (q, ?s, []) Some = None" for q
    by (simp add: rmatch.simps(6,8))
  then have "rmatch (re_delim d c) (p, js d @ ?s, []) Some = None"
    unfolding re_delim_unfold [OF assms(1)]
    using rmatch_cat_lit [OF jd, of _ p ?s "[]" Some] by simp
  then show ?thesis by (simp add: match_here_def)
qed

lemma match_em:
  assumes "a \<noteq> []" and "95 \<notin> set a"
  shows "match_here (re_delim ''_'' ''_'') p ((95 # a @ [95]) @ t) = Some (95 # a @ [95], [a])"
proof -
  have n: "isNot ''_'' x \<longleftrightarrow> x \<noteq> 95" for x by (simp add: isNot_def js_def)
  have e: "rmatch (lit [95]) (q, 95 # t, [] @ [a]) Some = Some (Some 95, t, [a])" for q
    using rmatch_lit_end [of "[95]" q t "[a]"] by simp
  have g: "rmatch (Cat (Grp (Many (isNot ''_'') 1 None True)) (lit [95]))
             (q, a @ 95 # t, []) Some = Some (Some 95, t, [a])" for q
    by (rule rmatch_cat_grp_run) (use assms e in \<open>auto simp: n Suc_le_eq\<close>)
  have "rmatch (re_delim ''_'' ''_'') (p, [95] @ a @ 95 # t, []) Some = Some (Some 95, t, [a])"
    using rmatch_cat_lit [of "[95]" _ p "a @ 95 # t" "[]" Some] g
    by (simp add: re_delim_unfold js_def)
  then have "rmatch (re_delim ''_'' ''_'') (p, (95 # a @ [95]) @ t, []) Some = Some (Some 95, t, [a])"
    by simp
  then show ?thesis by (rule match_here_from_rmatch)
qed

lemma delim_copy:
  "match_here (re_delim d c) None (x # xs) = None \<Longrightarrow>
     replace_all (re_delim d c) f (x # xs) = x # replace_all (re_delim d c) f xs"
  by (rule replace_from_copy [OF anchor_free_delim])

lemma delim_nil:
  assumes "d \<noteq> []"
  shows "replace_all (re_delim d c) f [] = []"
proof -
  have "\<not> startsWith [] (js d)" using assms by (cases d) (auto simp: js_def)
  then have "match_here (re_delim d c) None [] = None"
    using assms by (intro delim_lit_fail)
  then show ?thesis
    unfolding replace_all_def by (subst replace_from.simps) simp
qed

lemma delim_skip:
  assumes "d \<noteq> []" and "hd (js d) \<notin> set a"
  shows "replace_all (re_delim d c) f (a @ t) = a @ replace_all (re_delim d c) f t"
  using assms(2)
proof (induction a)
  case Nil
  show ?case by simp
next
  case (Cons x xs)
  then have "\<not> startsWith (x # xs @ t) (js d)"
    using assms(1) by (cases d) (auto simp: js_def)
  then have "match_here (re_delim d c) None (x # xs @ t) = None"
    using assms(1) by (intro delim_lit_fail)
  then show ?case using Cons by (simp add: delim_copy)
qed


lemma placeholder_form:
  "generatePlaceholder (js ''CODE_BLOCK'') ident =
     95 # 95 # 67 # 79 # 68 # 69 # 95 # 66 # 76 # 79 # 67 # 75 # 95 # ident @ [95, 95]"
  by (simp add: generatePlaceholder_def js_def)

lemma placeholder_triple:
  assumes "ident \<noteq> []" and "95 \<notin> set ident"
  shows "replace_all (re_delim ''___'' ''_'') f
           (95 # 95 # 67 # 79 # 68 # 69 # 95 # 66 # 76 # 79 # 67 # 75 # 95 # ident @ [95, 95]) =
         95 # 95 # 67 # 79 # 68 # 69 # 95 # 66 # 76 # 79 # 67 # 75 # 95 # ident @ [95, 95]"
  using assms
  by (cases ident) (simp_all add: delim_copy delim_lit_fail delim_skip delim_nil js_def)

lemma placeholder_double:
  assumes "ident \<noteq> []" and "95 \<notin> set ident"
  shows "replace_all (re_delim ''__'' ''_'') f
           (95 # 95 # 67 # 79 # 68 # 69 # 95 # 66 # 76 # 79 # 67 # 75 # 95 # ident @ [95, 95]) =
         95 # 95 # 67 # 79 # 68 # 69 # 95 # 66 # 76 # 79 # 67 # 75 # 95 # ident @ [95, 95]"
proof -
  from assms obtain x xs where i: "ident = x # xs" and x: "x \<noteq> 95" and xs: "95 \<notin> set xs"
    by (cases ident) auto
  have "match_here (re_delim ''__'' ''_'') None
          (js ''__'' @ js ''CODE'' @ (95 # 66 # 76 # 79 # 67 # 75 # 95 # x # xs @ [95, 95])) = None"
    by (rule delim_unclosed) (simp_all add: js_def isNot_def)
  then have m0: "match_here (re_delim ''__'' ''_'') None
          (95 # 95 # 67 # 79 # 68 # 69 # 95 # 66 # 76 # 79 # 67 # 75 # 95 # x # xs @ [95, 95]) = None"
    by (simp add: js_def)
  have "match_here (re_delim ''__'' ''_'') None (js ''__'' @ [] @ []) = None"
    by (rule delim_unclosed) (simp_all add: js_def isNot_def)
  then have m1: "match_here (re_delim ''__'' ''_'') None [95, 95] = None"
    by (simp add: js_def)
  show ?thesis
    unfolding i using x xs
    by (simp add: m0 m1 delim_copy delim_lit_fail delim_skip delim_nil js_def)
qed

lemma placeholder_single:
  assumes "ident \<noteq> []" and "95 \<notin> set ident"
  shows "replace_all (re_delim ''_'' ''_'') (wrap ''<em>'' ''</em>'')
           (95 # 95 # 67 # 79 # 68 # 69 # 95 # 66 # 76 # 79 # 67 # 75 # 95 # ident @ [95, 95]) =
         95 # js ''<em>CODE</em>BLOCK<em>'' @ ident @ js ''</em>_''"
proof -
  let ?D = "re_delim ''_'' ''_''"
  let ?f = "wrap ''<em>'' ''</em>''"
  have "match_here ?D None (js ''_'' @ [] @ (95 # 67 # 79 # 68 # 69 # 95 # 66 # 76 # 79 # 67 # 75 # 95 # ident @ [95, 95])) = None"
    by (rule delim_unclosed) (simp_all add: js_def isNot_def)
  then have m0: "match_here ?D None
      (95 # 95 # 67 # 79 # 68 # 69 # 95 # 66 # 76 # 79 # 67 # 75 # 95 # ident @ [95, 95]) = None"
    by (simp add: js_def)
  have s0: "replace_all ?D ?f (95 # 95 # 67 # 79 # 68 # 69 # 95 # 66 # 76 # 79 # 67 # 75 # 95 # ident @ [95, 95]) =
      95 # replace_all ?D ?f (95 # 67 # 79 # 68 # 69 # 95 # 66 # 76 # 79 # 67 # 75 # 95 # ident @ [95, 95])"
    using m0 by (rule delim_copy)
  have me1: "match_here ?D None ((95 # [67, 79, 68, 69] @ [95]) @ (66 # 76 # 79 # 67 # 75 # 95 # ident @ [95, 95])) =
      Some (95 # [67, 79, 68, 69] @ [95], [[67, 79, 68, 69]])"
    by (rule match_em) simp_all
  have "replace_all ?D ?f ((95 # [67, 79, 68, 69] @ [95]) @ (66 # 76 # 79 # 67 # 75 # 95 # ident @ [95, 95])) =
      ?f (95 # [67, 79, 68, 69] @ [95]) [[67, 79, 68, 69]] @
      replace_all ?D ?f (66 # 76 # 79 # 67 # 75 # 95 # ident @ [95, 95])"
    by (rule replace_from_match [OF anchor_free_delim me1]) simp
  then have s1: "replace_all ?D ?f (95 # 67 # 79 # 68 # 69 # 95 # 66 # 76 # 79 # 67 # 75 # 95 # ident @ [95, 95]) =
      js ''<em>CODE</em>'' @ replace_all ?D ?f (66 # 76 # 79 # 67 # 75 # 95 # ident @ [95, 95])"
    by (simp add: wrap_def js_def)
  have "replace_all ?D ?f ([66, 76, 79, 67, 75] @ (95 # ident @ [95, 95])) =
      [66, 76, 79, 67, 75] @ replace_all ?D ?f (95 # ident @ [95, 95])"
    by (rule delim_skip) (simp_all add: js_def)
  then have s2: "replace_all ?D ?f (66 # 76 # 79 # 67 # 75 # 95 # ident @ [95, 95]) =
      js ''BLOCK'' @ replace_all ?D ?f (95 # ident @ [95, 95])"
    by (simp add: js_def)
  have me2: "match_here ?D None ((95 # ident @ [95]) @ [95]) = Some (95 # ident @ [95], [ident])"
    using assms by (rule match_em)
  have "replace_all ?D ?f ((95 # ident @ [95]) @ [95]) =
      ?f (95 # ident @ [95]) [ident] @ replace_all ?D ?f [95]"
    by (rule replace_from_match [OF anchor_free_delim me2]) simp
  then have s3: "replace_all ?D ?f (95 # ident @ [95, 95]) =
      js ''<em>'' @ ident @ js ''</em>'' @ replace_all ?D ?f [95]"
    by (simp add: wrap_def)
  have "match_here ?D None (js ''_'' @ [] @ []) = None"
    by (rule delim_unclosed) (simp_all add: js_def isNot_def)
  then have "match_here ?D None [95] = None" by (simp add: js_def)
  then have s4: "replace_all ?D ?f [95] = [95]"
    by (simp add: delim_copy delim_nil)
  show ?thesis
    unfolding s0 s1 s2 s3 s4 by (simp add: js_def)
qed


subsection \<open>Texts without three backticks in a row\<close>

lemma startsWith_append_stop:
  "x \<notin> set p \<Longrightarrow> startsWith (cs @ x # r) p \<Longrightarrow> startsWith cs p"
proof (induction p arbitrary: cs)
  case Nil
  show ?case by simp
next
  case (Cons a p)
  then show ?case by (cases cs) auto
qed

lemma no_fence_drop:
  assumes "\<not> includesStr T [96, 96, 96]" and "n \<le> length T"
  shows "\<not> startsWith (drop n (T @ 10 # r)) [96, 96, 96]"
  using assms
proof (induction T arbitrary: n)
  case Nil
  then show ?case by simp
next
  case (Cons c cs)
  show ?case
  proof (cases n)
    case 0
    have "\<not> startsWith (c # cs) [96, 96, 96]" using Cons.prems(1) by simp
    then have "\<not> startsWith ((c # cs) @ 10 # r) [96, 96, 96]"
      using startsWith_append_stop [of 10 "[96, 96, 96]" "c # cs" r] by auto
    with 0 show ?thesis by simp
  next
    case (Suc m)
    with Cons show ?thesis by simp
  qed
qed

lemma includesStr_skip:
  "x \<notin> set e \<Longrightarrow> includesStr (e @ X) (x # q) \<longleftrightarrow> includesStr X (x # q)"
  by (induction e) auto

lemma escapeHtml_Cons:
  "escapeHtml (c # s) = (if isMeta c then parser_map [c] else [c]) @ escapeHtml s"
  by (simp add: escapeHtml_map)

lemma parser_map_no_backtick: "isMeta c \<Longrightarrow> 96 \<notin> set (parser_map [c])"
  by (auto simp: isMeta_def parser_map_def js_def)

lemma parser_map_hd: "isMeta c \<Longrightarrow> hd (parser_map [c]) = 38 \<and> parser_map [c] \<noteq> []"
  by (auto simp: isMeta_def parser_map_def js_def)

lemma escapeHtml_startsWith:
  "(\<forall>x\<in>set q. x = 96) \<Longrightarrow> startsWith (escapeHtml s) q \<Longrightarrow> startsWith s q"
proof (induction q arbitrary: s)
  case Nil
  show ?case by simp
next
  case (Cons a q)
  show ?case
  proof (cases s)
    case Nil
    with Cons.prems show ?thesis by (simp add: escapeHtml_map)
  next
    case (Cons c cs)
    show ?thesis
    proof (cases "isMeta c")
      case True
      then obtain e es where e: "parser_map [c] = e # es" and "e = 38"
        using parser_map_hd [of c] by (cases "parser_map [c]") auto
      with Cons.prems True Cons \<open>s = c # cs\<close> show ?thesis
        by (auto simp: escapeHtml_Cons)
    next
      case False
      with Cons.prems Cons.IH [of cs] \<open>s = c # cs\<close> show ?thesis
        by (auto simp: escapeHtml_Cons)
    qed
  qed
qed

lemma escapeHtml_no_fence:
  "\<not> includesStr s [96, 96, 96] \<Longrightarrow> \<not> includesStr (escapeHtml s) [96, 96, 96]"
proof (induction s)
  case Nil
  then show ?case by (simp add: escapeHtml_map)
next
  case (Cons c cs)
  then have IH: "\<not> includesStr (escapeHtml cs) [96, 96, 96]" by simp
  show ?case
  proof (cases "isMeta c")
    case True
    then show ?thesis
      using IH includesStr_skip [OF parser_map_no_backtick [OF True], of "escapeHtml cs" "[96, 96]"]
      by (simp add: escapeHtml_Cons)
  next
    case False
    have "\<not> startsWith (c # cs) [96, 96, 96]" using Cons.prems by simp
    then have "\<not> startsWith (escapeHtml (c # cs)) [96, 96, 96]"
      using escapeHtml_startsWith [of "[96, 96, 96]" "c # cs"] by auto
    with False IH show ?thesis by (simp add: escapeHtml_Cons)
  qed
qed


subsection \<open>The passes on the placeholder of a fenced block\<close>

lemma identChar_not:
  "isIdentChar c \<Longrightarrow>
     \<not> isLineTerminator c \<and> \<not> isWhiteSpace c \<and> c \<noteq> 10 \<and> c \<noteq> 33 \<and> c \<noteq> 42 \<and> c \<noteq> 91 \<and> c \<noteq> 95 \<and> c \<noteq> 96 \<and> c \<noteq> 126"
  by (auto simp: isIdentChar_def isAlnum_def isAlpha_def isDigit_def isLineTerminator_def
      isWhiteSpace_def)

lemma parseEmphasis_placeholder:
  assumes "ident \<noteq> []" and "\<forall>c\<in>set ident. isIdentChar c"
  shows "parseEmphasis (generatePlaceholder (js ''CODE_BLOCK'') ident) =
           95 # js ''<em>CODE</em>BLOCK<em>'' @ ident @ js ''</em>_''"
proof -
  let ?ph = "95 # 95 # 67 # 79 # 68 # 69 # 95 # 66 # 76 # 79 # 67 # 75 # 95 # ident @ [95, 95]"
  have u: "95 \<notin> set ident" and a: "42 \<notin> set ident"
    using assms(2) identChar_not by blast+
  have star: "replace_all (re_delim d c) f ?ph = ?ph" if "d \<noteq> []" and "hd (js d) = 42" for d c f
    using that a by (intro delim_id) auto
  have s3: "replace_all (re_delim ''***'' ''*'') f ?ph = ?ph" for f
    by (rule star) (simp_all add: js_def)
  have s2: "replace_all (re_delim ''**'' ''*'') f ?ph = ?ph" for f
    by (rule star) (simp_all add: js_def)
  have s1: "replace_all (re_delim ''*'' ''*'') f ?ph = ?ph" for f
    by (rule star) (simp_all add: js_def)
  show ?thesis
    unfolding parseEmphasis_def placeholder_form
    by (simp only: Let_def s3 s2 s1 placeholder_triple [OF assms(1) u]
        placeholder_double [OF assms(1) u] placeholder_single [OF assms(1) u])
qed

lemma includesStr_char: "includesStr s [c] \<longleftrightarrow> c \<in> set s"
  by (induction s) auto

lemma re_test_tag_other:
  assumes "s = [] \<or> hd s \<noteq> 60"
  shows "\<not> re_test re_tag s"
proof -
  have "match_here re_tag None s = None"
    unfolding re_tag_unfold
    using assms by (simp add: match_here_def rmatch.simps(4,6) rmatch_lit_hd)
  then show ?thesis
    unfolding re_test_def re_match_def
    by (cases s) (simp_all add: re_tag_unfold search_from_bol_inner)
qed

lemma parseParagraphs_line:
  assumes "10 \<notin> set s" and "s \<noteq> []" and "hd s \<noteq> 60"
    and "\<not> isWhiteSpace (hd s)" and "\<not> isWhiteSpace (last s)"
  shows "parseParagraphs s = js ''<p>'' @ s @ js ''</p>''"
proof -
  have t: "trim s = s" using assms(2,4,5) by (rule trim_id)
  have sp: "split s [10, 10] = [s]" using assms(1) by (intro split_none) auto
  have tag: "\<not> re_test re_tag s" using assms(3) by (intro re_test_tag_other) simp
  show ?thesis
    using assms(1,2) tag
    by (simp add: parseParagraphs_def sp wrapBlock_def t includesStr_char)
qed

lemma indexOf_tail:
  "95 \<notin> set a \<Longrightarrow> indexOf (a @ js ''</em>_</p>'') (95 # 95 # q) = None"
  by (induction a) (auto simp: js_def)

lemma restore_placeholder:
  assumes "95 \<notin> set ident"
  shows "restoreCodeBlocks (js ''<p>_<em>CODE</em>BLOCK<em>'' @ ident @ js ''</em>_</p>'')
           \<lparr>codeBlocks = [\<lparr>placeholder = generatePlaceholder (js ''CODE_BLOCK'') ident,
                            content = cont\<rparr>]\<rparr> =
         js ''<p>_<em>CODE</em>BLOCK<em>'' @ ident @ js ''</em>_</p>''"
proof -
  have "indexOf (js ''<p>_<em>CODE</em>BLOCK<em>'' @ ident @ js ''</em>_</p>'')
          (generatePlaceholder (js ''CODE_BLOCK'') ident) = None"
    unfolding placeholder_form
    using indexOf_tail [OF assms, of "67 # 79 # 68 # 69 # 95 # 66 # 76 # 79 # 67 # 75 # 95 # ident @ [95, 95]"]
    by (simp add: js_def)
  then show ?thesis
    by (simp add: restoreCodeBlocks_def replaceString_def)
qed

lemma placeholder_passes:
  assumes "ident \<noteq> []" and "\<forall>c\<in>set ident. isIdentChar c"
  shows "parseParagraphs (parseStrikethrough (parseEmphasis (parseLinks (parseImages
           (parseLists (parseBlockquotes (replace_all re_rule f (parseHeaders (parseInlineCode
              (generatePlaceholder (js ''CODE_BLOCK'') ident)))))))))) =
         js ''<p>_<em>CODE</em>BLOCK<em>'' @ ident @ js ''</em>_</p>''"
proof -
  let ?ph = "generatePlaceholder (js ''CODE_BLOCK'') ident"
  let ?E = "95 # js ''<em>CODE</em>BLOCK<em>'' @ ident @ js ''</em>_''"
  have ph: "?ph = 95 # 95 # 67 # 79 # 68 # 69 # 95 # 66 # 76 # 79 # 67 # 75 # 95 # ident @ [95, 95]"
    by (rule placeholder_form)
  have n: "\<forall>c\<in>set ?ph. \<not> isLineTerminator c \<and> c \<noteq> 10 \<and> c \<noteq> 33 \<and> c \<noteq> 91 \<and> c \<noteq> 96"
    unfolding ph using assms(2) identChar_not by (auto simp: isLineTerminator_def)
  have hd: "hd ?ph = 95" by (simp add: ph)
  have i: "parseInlineCode ?ph = ?ph" using n by (intro parseInlineCode_id) auto
  have h: "parseHeaders ?ph = ?ph" using n hd by (intro parseHeaders_id) auto
  have r: "replace_all re_rule f ?ph = ?ph" using n hd by (intro rule_id) auto
  have b: "parseBlockquotes ?ph = ?ph" using n hd by (intro parseBlockquotes_id) auto
  have l: "parseLists ?ph = ?ph" using n hd by (intro parseLists_id) (auto simp: isDigit_def)
  have im: "parseImages ?ph = ?ph" using n by (intro parseImages_none) auto
  have li: "parseLinks ?ph = ?ph" using n by (intro parseLinks_none) auto
  have e: "parseEmphasis ?ph = ?E" using assms by (rule parseEmphasis_placeholder)
  have nE: "10 \<notin> set ?E" "126 \<notin> set ?E"
    using assms(2) identChar_not by (auto simp: js_def)
  have s: "parseStrikethrough ?E = ?E" using nE(2) by (rule parseStrikethrough_id)
  have p: "parseParagraphs ?E = js ''<p>'' @ ?E @ js ''</p>''"
    using nE(1)
    by (intro parseParagraphs_line) (auto simp: js_def isWhiteSpace_def isLineTerminator_def)
  show ?thesis
    by (simp only: i h r b l im li e s p) (simp add: js_def)
qed

lemma escapeHtml_fenced:
  "escapeHtml ([96, 96, 96, 10] @ T @ [10, 96, 96, 96]) =
     [96, 96, 96, 10] @ (escapeHtml T @ [10]) @ [96, 96, 96]"
  by (simp add: escapeHtml_append) (simp add: escapeHtml_map isMeta_def)

lemma parse_fenced:
  assumes "\<not> includesStr T [96, 96, 96]" and "ids 0 \<noteq> []" and "\<forall>c\<in>set (ids 0). isIdentChar c"
  shows "parse ids ([96, 96, 96, 10] @ T @ [10, 96, 96, 96]) =
           js ''<p>_<em>CODE</em>BLOCK<em>'' @ ids 0 @ js ''</em>_</p>''"
proof -
  let ?C = "escapeHtml T @ [10]"
  have nf: "\<not> includesStr (escapeHtml T) [96, 96, 96]"
    using assms(1) by (rule escapeHtml_no_fence)
  have "\<not> startsWith (drop n (?C @ [96, 96, 96])) [96, 96, 96]" if "n < length ?C" for n
    using no_fence_drop [OF nf, of n "[96, 96, 96]"] that by simp
  then have c: "parseCodeBlocks ids ([96, 96, 96, 10] @ ?C @ [96, 96, 96]) \<lparr>codeBlocks = []\<rparr> =
           (generatePlaceholder (js ''CODE_BLOCK'') (ids 0),
            \<lparr>codeBlocks = [\<lparr>placeholder = generatePlaceholder (js ''CODE_BLOCK'') (ids 0),
                             content = js ''<pre><code>'' @ trim ?C @ js ''</code></pre>''\<rparr>]\<rparr>)"
    by (rule parseCodeBlocks_fence)
  have u: "95 \<notin> set (ids 0)" using assms(3) identChar_not by blast
  show ?thesis
    unfolding parse_def
    by (simp only: escapeHtml_fenced c Let_def prod.case placeholder_passes [OF assms(2,3)]
        restore_placeholder [OF u]) simp
qed


lemma identChar_not_lt: "isIdentChar c \<Longrightarrow> c \<noteq> 60"
  by (auto simp: isIdentChar_def isAlnum_def isAlpha_def isDigit_def)

lemma no_pre_in_residue:
  assumes "60 \<notin> set ident"
  shows "\<not> includesStr (js ''<p>_<em>CODE</em>BLOCK<em>'' @ ident @ js ''</em>_</p>'')
           (js ''<pre><code>'')"
  using includesStr_skip [OF assms, of "js ''</em>_</p>''" "js ''pre><code>''"]
  by (simp add: js_def)

subsection \<open>The verdict of the sanitizer and the decoded form\<close>

lemma decode_no_percent: "37 \<notin> set s \<Longrightarrow> decodeURIComponent s = Some s"
  by (induction s) auto

lemma trim_pad:
  assumes "\<forall>c\<in>set p. isWhiteSpace c" and "\<forall>c\<in>set q. isWhiteSpace c"
  shows "trim (p @ x @ q) = trim x"
proof -
  have a: "dropWhile isWhiteSpace (p @ x @ q) = dropWhile isWhiteSpace (x @ q)"
    by (rule dropWhile_append2) (use assms(1) in auto)
  show ?thesis
  proof (cases "\<forall>c\<in>set x. isWhiteSpace c")
    case True
    with assms have xq: "dropWhile isWhiteSpace (p @ x @ q) = []" by simp
    from True have x0: "dropWhile isWhiteSpace x = []" by simp
    show ?thesis unfolding trim_def dropTrail_def by (simp only: xq x0)
  next
    case False
    then have b: "dropWhile isWhiteSpace (x @ q) = dropWhile isWhiteSpace x @ q"
      by (auto simp: dropWhile_append1)
    have c: "dropWhile isWhiteSpace (rev q @ r) = dropWhile isWhiteSpace r" for r
      by (rule dropWhile_append2) (use assms(2) in auto)
    show ?thesis
      unfolding trim_def dropTrail_def by (simp only: a b rev_append c)
  qed
qed

lemma trim_decomp:
  "\<exists>p q. s = p @ trim s @ q \<and> (\<forall>c\<in>set p. isWhiteSpace c) \<and> (\<forall>c\<in>set q. isWhiteSpace c)"
proof -
  let ?y = "dropWhile isWhiteSpace s"
  let ?q = "rev (takeWhile isWhiteSpace (rev ?y))"
  have "rev ?y = takeWhile isWhiteSpace (rev ?y) @ dropWhile isWhiteSpace (rev ?y)"
    by simp
  then have "?y = rev (dropWhile isWhiteSpace (rev ?y)) @ ?q"
    by (metis rev_append rev_rev_ident)
  then have y: "?y = trim s @ ?q"
    by (simp add: trim_def dropTrail_def)
  have "s = takeWhile isWhiteSpace s @ ?y" by simp
  with y have "s = takeWhile isWhiteSpace s @ trim s @ ?q" by simp
  moreover have "\<forall>c\<in>set (takeWhile isWhiteSpace s). isWhiteSpace c"
    by (auto dest: set_takeWhileD)
  moreover have "\<forall>c\<in>set ?q. isWhiteSpace c"
    by (auto dest: set_takeWhileD)
  ultimately show ?thesis by blast
qed

lemma toLowerCase_space: "\<forall>c\<in>set p. isWhiteSpace c \<Longrightarrow> toLowerCase p = p"
  by (rule toLowerCase_control) (simp add: isSpaceOrControl_def)

lemma trim_lower_trim: "trim (toLowerCase (trim d)) = trim (toLowerCase d)"
proof -
  obtain p q where d: "d = p @ trim d @ q"
    and p: "\<forall>c\<in>set p. isWhiteSpace c" and q: "\<forall>c\<in>set q. isWhiteSpace c"
    using trim_decomp [of d] by blast
  have "toLowerCase d = toLowerCase (p @ trim d @ q)" using d by simp
  also have "\<dots> = p @ toLowerCase (trim d) @ q"
    using p q by (simp add: toLowerCase_append toLowerCase_space)
  finally show ?thesis using p q by (simp add: trim_pad)
qed

lemma trim_Nil: "trim [] = []"
  by (simp add: trim_def dropTrail_def)

lemma verdict_on_decoded:
  assumes "decodeURIComponent (trim u) = Some d" and "37 \<notin> set d" and "trim d \<noteq> []"
  shows "sanitizeUrl u = [] \<longleftrightarrow> sanitizeUrl d = []"
proof -
  have d: "d \<noteq> []" using assms(3) by (auto simp: trim_Nil)
  have tu: "trim u \<noteq> []" using assms(1) d by auto
  then have u: "u \<noteq> []" by (auto simp: trim_Nil)
  have "37 \<notin> set (trim d)" using assms(2) set_trim [of d] by auto
  then have dd: "decodeURIComponent (trim d) = Some (trim d)" by (rule decode_no_percent)
  show ?thesis
    using u tu d assms(1,3) dd
    by (simp add: sanitizeUrl_def Let_def trim_lower_trim split: option.splits prod.splits)
qed

section \<open>The sanitizer on concrete URLs\<close>

text \<open>
  Claim C10: \<^verbatim>\<open>sanitizeUrl\<close> decodes its input exactly once before it judges it.
  The verdict on an input is the verdict on its decoded form, whenever that form holds
  no per cent sign and is not blank; the value returned is the trimmed input, never the
  decoded form. The doubly encoded \<^verbatim>\<open>javascript%253Aalert(1)\<close> decodes to
  \<^verbatim>\<open>javascript%3Aalert(1)\<close>, which starts with none of the five dangerous prefixes
  and has no \<^verbatim>\<open>scheme:\<close> prefix, so the input is returned unchanged, although the
  singly encoded \<^verbatim>\<open>javascript%3Aalert(1)\<close> is itself rejected.
\<close>

theorem sanitizeUrl_decodes_once:
  "(\<forall>u d. decodeURIComponent (trim u) = Some d \<and> 37 \<notin> set d \<and> trim d \<noteq> []
      \<longrightarrow> (sanitizeUrl u = []) = (sanitizeUrl d = [])) \<and>
   (\<forall>u. sanitizeUrl u = [] \<or> sanitizeUrl u = trim u) \<and>
   decodeURIComponent (js ''javascript%253Aalert(1)'') = Some (js ''javascript%3Aalert(1)'') \<and>
   \<not> startsWith (js ''javascript%3aalert(1)'') (js ''javascript:'') \<and>
   re_match re_protocol (js ''javascript%3aalert(1)'') = None \<and>
   sanitizeUrl (js ''javascript%253Aalert(1)'') = js ''javascript%253Aalert(1)'' \<and>
   sanitizeUrl (js ''javascript%3Aalert(1)'') = []"
proof -
  have a: "\<forall>u d. decodeURIComponent (trim u) = Some d \<and> 37 \<notin> set d \<and> trim d \<noteq> []
      \<longrightarrow> (sanitizeUrl u = []) = (sanitizeUrl d = [])"
    using verdict_on_decoded by blast
  have b: "\<forall>u. sanitizeUrl u = [] \<or> sanitizeUrl u = trim u"
    using sanitizeUrl_cases by blast
  have c: "decodeURIComponent (js ''javascript%253Aalert(1)'') = Some (js ''javascript%3Aalert(1)'')"
    by code_simp
  have d: "\<not> startsWith (js ''javascript%3aalert(1)'') (js ''javascript:'')"
    by code_simp
  have e: "re_match re_protocol (js ''javascript%3aalert(1)'') = None"
    by code_simp
  have f: "sanitizeUrl (js ''javascript%253Aalert(1)'') = js ''javascript%253Aalert(1)''"
    by code_simp
  have g: "sanitizeUrl (js ''javascript%3Aalert(1)'') = []"
    by code_simp
  from a b c d e f g show ?thesis by (simp only: simp_thms)
qed

theorem sanitizeUrl_decodes_once_witness:
  "decodeURIComponent (trim (js ''data%3Atext/html,x'')) = Some (js ''data:text/html,x'') \<and>
   sanitizeUrl (js ''data:text/html,x'') = [] \<and>
   sanitizeUrl (js ''data%3Atext/html,x'') = []"
proof -
  have d: "decodeURIComponent (trim (js ''data%3Atext/html,x'')) = Some (js ''data:text/html,x'')"
    by code_simp
  have n: "37 \<notin> set (js ''data:text/html,x'')"
    by (simp add: js_def)
  have t: "trim (js ''data:text/html,x'') \<noteq> []"
    by code_simp
  have s: "sanitizeUrl (js ''data:text/html,x'') = []"
    by code_simp
  have "(sanitizeUrl (js ''data%3Atext/html,x'') = []) = (sanitizeUrl (js ''data:text/html,x'') = [])"
    using sanitizeUrl_decodes_once [THEN conjunct1, rule_format,
        of "js ''data%3Atext/html,x''" "js ''data:text/html,x''"] d n t
    by blast
  with d s show ?thesis by blast
qed

text \<open>
  Claim C4: \<^verbatim>\<open>sanitizeUrl\<close> judges the decoded form and never throws:
  \<^verbatim>\<open>javascript%3Aalert(1)\<close> decodes to \<^verbatim>\<open>javascript:alert(1)\<close> and is rejected,
  and every input whose trimmed form \<^verbatim>\<open>decodeURIComponent\<close> refuses (the URIError,
  \<open>None\<close> here) gives the empty string.
\<close>

theorem sanitizeUrl_undecodable:
  "decodeURIComponent (js ''javascript%3Aalert(1)'') = Some (js ''javascript:alert(1)'') \<and>
   sanitizeUrl (js ''javascript%3Aalert(1)'') = [] \<and>
   (\<forall>u. decodeURIComponent (trim u) = None \<longrightarrow> sanitizeUrl u = [])"
proof -
  have "decodeURIComponent (js ''javascript%3Aalert(1)'') = Some (js ''javascript:alert(1)'')"
    by code_simp
  moreover have "sanitizeUrl (js ''javascript%3Aalert(1)'') = []"
    by code_simp
  moreover have "sanitizeUrl u = []" if "decodeURIComponent (trim u) = None" for u
    using that by (simp add: sanitizeUrl_def Let_def)
  ultimately show ?thesis by blast
qed

theorem sanitizeUrl_undecodable_witness:
  "decodeURIComponent (trim (js ''%E0%A4%A'')) = None \<and> sanitizeUrl (js ''%E0%A4%A'') = []"
proof -
  have h: "decodeURIComponent (trim (js ''%E0%A4%A'')) = None"
    by code_simp
  from sanitizeUrl_undecodable
  have "\<forall>u. decodeURIComponent (trim u) = None \<longrightarrow> sanitizeUrl u = []"
    by blast
  with h show ?thesis by blast
qed

text \<open>
  Claim C1, as the specification states it: \<^verbatim>\<open>sanitizeUrl\<close> rejects a dangerous
  scheme whatever white space or control characters stand inside the scheme name. The
  source strips such characters at the two ends only, so \<^verbatim>\<open>java\<close>, a tab,
  \<^verbatim>\<open>script:alert(1)\<close> starts with no dangerous prefix and has no \<^verbatim>\<open>scheme:\<close>
  prefix: it is returned as it is.
\<close>

theorem sanitizeUrl_embedded_tab:
  "sanitizeUrl (js ''java'' @ [9] @ js ''script:alert(1)'') =
     js ''java'' @ [9] @ js ''script:alert(1)''"
  by code_simp

text \<open>
  Claim C1, amended: for every scheme among http, https, mailto, ftp and ftps,
  \<^verbatim>\<open>sanitizeUrl(scheme + "://x")\<close> is the input itself; and for every scheme among
  javascript, data, vbscript, file and about, \<^verbatim>\<open>sanitizeUrl\<close> returns the empty
  string on every input whose trimmed, decoded form is a run \<open>p\<close> of white space and
  control characters, then the scheme name and its colon in any letter case (\<open>w\<close>),
  then anything (\<open>r\<close>).
\<close>

theorem sanitizeUrl_schemes:
  "map sanitizeUrl
     [js ''http://x'', js ''https://x'', js ''mailto://x'', js ''ftp://x'', js ''ftps://x''] =
     [js ''http://x'', js ''https://x'', js ''mailto://x'', js ''ftp://x'', js ''ftps://x''] \<and>
   (\<forall>s u p w r.
      (s = js ''javascript:'' \<or> s = js ''data:'' \<or> s = js ''vbscript:'' \<or>
       s = js ''file:'' \<or> s = js ''about:'') \<and>
      decodeURIComponent (trim u) = Some (p @ w @ r) \<and>
      (\<forall>c\<in>set p. isSpaceOrControl c) \<and> toLowerCase w = s
      \<longrightarrow> sanitizeUrl u = [])"
proof -
  have "map sanitizeUrl
     [js ''http://x'', js ''https://x'', js ''mailto://x'', js ''ftp://x'', js ''ftps://x''] =
     [js ''http://x'', js ''https://x'', js ''mailto://x'', js ''ftp://x'', js ''ftps://x'']"
    by code_simp
  then show ?thesis
    using sanitizeUrl_dangerous by blast
qed

theorem sanitizeUrl_schemes_witness:
  "decodeURIComponent (trim (js ''%20%09JaVaScRiPt:alert(1)'')) =
     Some ([32, 9] @ js ''JaVaScRiPt:'' @ js ''alert(1)'') \<and>
   toLowerCase (js ''JaVaScRiPt:'') = js ''javascript:'' \<and>
   sanitizeUrl (js ''%20%09JaVaScRiPt:alert(1)'') = []"
proof -
  have d: "decodeURIComponent (trim (js ''%20%09JaVaScRiPt:alert(1)'')) =
     Some ([32, 9] @ js ''JaVaScRiPt:'' @ js ''alert(1)'')"
    by code_simp
  have l: "toLowerCase (js ''JaVaScRiPt:'') = js ''javascript:''"
    by code_simp
  have p: "\<forall>c\<in>set [32, 9]. isSpaceOrControl c"
    by (simp add: isSpaceOrControl_def isWhiteSpace_def)
  have "sanitizeUrl (js ''%20%09JaVaScRiPt:alert(1)'') = []"
    using sanitizeUrl_schemes [THEN conjunct2, rule_format,
        of "js ''javascript:''" "js ''%20%09JaVaScRiPt:alert(1)''" "[32, 9]"
           "js ''JaVaScRiPt:''" "js ''alert(1)''"] d l p
    by blast
  with d l show ?thesis by blast
qed

section \<open>Images and links\<close>

text \<open>
  The image pass and the link pass of \<^verbatim>\<open>parse\<close>, each taken alone, on any text: an
  image or a link at the current position is replaced by a tag that holds what
  \<^verbatim>\<open>sanitizeUrl\<close> returned for the URL, or, when \<^verbatim>\<open>sanitizeUrl\<close> returns the empty
  string, by the text \<^verbatim>\<open>[Image: alt]\<close> or \<^verbatim>\<open>[text]\<close> inside a \<^verbatim>\<open><span>\<close>; a
  code unit that cannot start one is copied. The last two parts are \<^verbatim>\<open>parse\<close> itself
  on a document that is one image or one link whose alternative text, label and URL are
  plain text, so that no later pass finds anything in the emitted tag.
\<close>

lemma image_and_link_passes:
  \<open>(\<forall>alt url t. 93 \<notin> set alt \<and> 41 \<notin> set url \<and> url \<noteq> [] \<longrightarrow>
      parseImages (js ''!['' @ alt @ js '']('' @ url @ js '')'' @ t) =
        (if sanitizeUrl url = [] then js ''<span>[Image: '' @ alt @ js '']</span>''
         else js ''<img src="'' @ sanitizeUrl url @ js ''" alt="'' @ alt @ js ''">'') @
        parseImages t) \<and>
   (\<forall>lbl url t. lbl \<noteq> [] \<and> 93 \<notin> set lbl \<and> 41 \<notin> set url \<and> url \<noteq> [] \<longrightarrow>
      parseLinks (js ''['' @ lbl @ js '']('' @ url @ js '')'' @ t) =
        (if sanitizeUrl url = [] then js ''<span>['' @ lbl @ js '']</span>''
         else js ''<a href="'' @ sanitizeUrl url @ js ''">'' @ lbl @ js ''</a>'') @
        parseLinks t) \<and>
   (\<forall>c t. c \<noteq> 33 \<longrightarrow> parseImages (c # t) = c # parseImages t) \<and>
   (\<forall>c t. c \<noteq> 91 \<longrightarrow> parseLinks (c # t) = c # parseLinks t) \<and>
   (\<forall>ids alt url. plainText alt \<and> plainText url \<and> url \<noteq> [] \<longrightarrow>
      parse ids (js ''!['' @ alt @ js '']('' @ url @ js '')'') =
        (if sanitizeUrl url = [] then js ''<span>[Image: '' @ alt @ js '']</span>''
         else js ''<img src="'' @ sanitizeUrl url @ js ''" alt="'' @ alt @ js ''">'')) \<and>
   (\<forall>ids lbl url. plainText lbl \<and> lbl \<noteq> [] \<and> plainText url \<and> url \<noteq> [] \<longrightarrow>
      parse ids (js ''['' @ lbl @ js '']('' @ url @ js '')'') =
        (if sanitizeUrl url = [] then js ''<span>['' @ lbl @ js '']</span>''
         else js ''<a href="'' @ sanitizeUrl url @ js ''">'' @ lbl @ js ''</a>''))\<close>
proof (intro conjI allI impI)
  fix alt url t :: jsstring
  assume "93 \<notin> set alt \<and> 41 \<notin> set url \<and> url \<noteq> []"
  then show \<open>parseImages (js ''!['' @ alt @ js '']('' @ url @ js '')'' @ t) =
        (if sanitizeUrl url = [] then js ''<span>[Image: '' @ alt @ js '']</span>''
         else js ''<img src="'' @ sanitizeUrl url @ js ''" alt="'' @ alt @ js ''">'') @
        parseImages t\<close>
    using parseImages_head [of alt url t] by (simp add: imageHtml_eq)
next
  fix lbl url t :: jsstring
  assume "lbl \<noteq> [] \<and> 93 \<notin> set lbl \<and> 41 \<notin> set url \<and> url \<noteq> []"
  then show \<open>parseLinks (js ''['' @ lbl @ js '']('' @ url @ js '')'' @ t) =
        (if sanitizeUrl url = [] then js ''<span>['' @ lbl @ js '']</span>''
         else js ''<a href="'' @ sanitizeUrl url @ js ''">'' @ lbl @ js ''</a>'') @
        parseLinks t\<close>
    using parseLinks_head [of lbl url t] by (simp add: linkHtml_eq)
next
  fix c :: nat and t
  assume "c \<noteq> 33"
  then show "parseImages (c # t) = c # parseImages t" by (rule parseImages_copy)
next
  fix c :: nat and t
  assume "c \<noteq> 91"
  then show "parseLinks (c # t) = c # parseLinks t" by (rule parseLinks_copy)
next
  fix ids :: "nat \<Rightarrow> jsstring" and alt url :: jsstring
  assume "plainText alt \<and> plainText url \<and> url \<noteq> []"
  then show \<open>parse ids (js ''!['' @ alt @ js '']('' @ url @ js '')'') =
        (if sanitizeUrl url = [] then js ''<span>[Image: '' @ alt @ js '']</span>''
         else js ''<img src="'' @ sanitizeUrl url @ js ''" alt="'' @ alt @ js ''">'')\<close>
    using parse_image_plain [of alt url ids] by blast
next
  fix ids :: "nat \<Rightarrow> jsstring" and lbl url :: jsstring
  assume "plainText lbl \<and> lbl \<noteq> [] \<and> plainText url \<and> url \<noteq> []"
  then show \<open>parse ids (js ''['' @ lbl @ js '']('' @ url @ js '')'') =
        (if sanitizeUrl url = [] then js ''<span>['' @ lbl @ js '']</span>''
         else js ''<a href="'' @ sanitizeUrl url @ js ''">'' @ lbl @ js ''</a>'')\<close>
    using parse_link_plain [of lbl url ids] by blast
qed

lemma image_and_link_passes_on_examples:
  \<open>parse (\<lambda>i. []) (js ''!['' @ js ''a cat'' @ js '']('' @ js ''javascript:alert'' @ js '')'') =
     js ''<span>[Image: a cat]</span>'' \<and>
   parse (\<lambda>i. []) (js ''['' @ js ''home'' @ js '']('' @ js ''https://example.com/a-b?c=1'' @ js '')'') =
     js ''<a href="https://example.com/a-b?c=1">home</a>'' \<and>
   parseImages (js ''!['' @ js ''a_b'' @ js '']('' @ js ''http://x/y.png'' @ js '')'' @ js '' and text'') =
     js ''<img src="http://x/y.png" alt="a_b"> and text'' \<and>
   parseLinks (js ''['' @ js ''t'' @ js '']('' @ js ''data:text/html,x'' @ js '')'' @ js ''!'') =
     js ''<span>[t]</span>!''\<close>
proof -
  have p1: "plainText (js ''a cat'') \<and> plainText (js ''javascript:alert'') \<and> js ''javascript:alert'' \<noteq> []"
    by (simp add: plainText_def js_def isLineTerminator_def isMeta_def)
  have s1: "sanitizeUrl (js ''javascript:alert'') = []" by code_simp
  have p2: "plainText (js ''home'') \<and> js ''home'' \<noteq> [] \<and> plainText (js ''https://example.com/a-b?c=1'') \<and>
            js ''https://example.com/a-b?c=1'' \<noteq> []"
    by (simp add: plainText_def js_def isLineTerminator_def isMeta_def)
  have s2: "sanitizeUrl (js ''https://example.com/a-b?c=1'') = js ''https://example.com/a-b?c=1''"
    by code_simp
  have p3: "93 \<notin> set (js ''a_b'') \<and> 41 \<notin> set (js ''http://x/y.png'') \<and> js ''http://x/y.png'' \<noteq> []"
    by (simp add: js_def)
  have s3: "sanitizeUrl (js ''http://x/y.png'') = js ''http://x/y.png''" by code_simp
  have t3: "parseImages (js '' and text'') = js '' and text''" by code_simp
  have p4: "js ''t'' \<noteq> [] \<and> 93 \<notin> set (js ''t'') \<and> 41 \<notin> set (js ''data:text/html,x'') \<and>
            js ''data:text/html,x'' \<noteq> []"
    by (simp add: js_def)
  have s4: "sanitizeUrl (js ''data:text/html,x'') = []" by code_simp
  have t4: "parseLinks (js ''!'') = js ''!''" by code_simp
  note main = image_and_link_passes
  have "parse (\<lambda>i. []) (js ''!['' @ js ''a cat'' @ js '']('' @ js ''javascript:alert'' @ js '')'') =
     js ''<span>[Image: '' @ js ''a cat'' @ js '']</span>''"
    using main [THEN conjunct2, THEN conjunct2, THEN conjunct2, THEN conjunct2, THEN conjunct1,
        rule_format, of "js ''a cat''" "js ''javascript:alert''" "\<lambda>i. []", OF p1]
    by (simp add: s1)
  moreover have \<open>parse (\<lambda>i. []) (js ''['' @ js ''home'' @ js '']('' @ js ''https://example.com/a-b?c=1'' @ js '')'') =
     js ''<a href="'' @ js ''https://example.com/a-b?c=1'' @ js ''">'' @ js ''home'' @ js ''</a>''\<close>
    using main [THEN conjunct2, THEN conjunct2, THEN conjunct2, THEN conjunct2, THEN conjunct2,
        rule_format, of "js ''home''" "js ''https://example.com/a-b?c=1''" "\<lambda>i. []", OF p2] p2
    by (simp add: s2)
  moreover have \<open>parseImages (js ''!['' @ js ''a_b'' @ js '']('' @ js ''http://x/y.png'' @ js '')'' @ js '' and text'') =
     (js ''<img src="'' @ js ''http://x/y.png'' @ js ''" alt="'' @ js ''a_b'' @ js ''">'') @ js '' and text''\<close>
    using main [THEN conjunct1, rule_format, of "js ''a_b''" "js ''http://x/y.png''" "js '' and text''", OF p3] p3
    by (simp add: s3 t3)
  moreover have \<open>parseLinks (js ''['' @ js ''t'' @ js '']('' @ js ''data:text/html,x'' @ js '')'' @ js ''!'') =
     js ''<span>['' @ js ''t'' @ js '']</span>'' @ js ''!''\<close>
    using main [THEN conjunct2, THEN conjunct1, rule_format,
        of "js ''t''" "js ''data:text/html,x''" "js ''!''", OF p4]
    by (simp add: s4 t4)
  moreover have "js ''<span>[Image: '' @ js ''a cat'' @ js '']</span>'' = js ''<span>[Image: a cat]</span>''"
    by (simp add: js_def)
  moreover have \<open>js ''<a href="'' @ js ''https://example.com/a-b?c=1'' @ js ''">'' @ js ''home'' @ js ''</a>'' =
      js ''<a href="https://example.com/a-b?c=1">home</a>''\<close>
    by (simp add: js_def)
  moreover have \<open>(js ''<img src="'' @ js ''http://x/y.png'' @ js ''" alt="'' @ js ''a_b'' @ js ''">'') @ js '' and text'' =
      js ''<img src="http://x/y.png" alt="a_b"> and text''\<close>
    by (simp add: js_def)
  moreover have "js ''<span>['' @ js ''t'' @ js '']</span>'' @ js ''!'' = js ''<span>[t]</span>!''"
    by (simp add: js_def)
  ultimately show ?thesis by (simp only:)
qed

text \<open>
  Claim C5: for every image \<^verbatim>\<open>![alt](url)\<close> and every link \<^verbatim>\<open>[text](url)\<close> in the
  input, the \<^verbatim>\<open>src\<close> or \<^verbatim>\<open>href\<close> attribute of the tag that \<^verbatim>\<open>parse\<close> returns holds
  only a URL that \<^verbatim>\<open>sanitizeUrl\<close> accepted, and no attribute is built from anything
  else. The passes that follow the image pass run over the tags already emitted.
  \<^verbatim>\<open>sanitizeUrl\<close> accepts \<^verbatim>\<open>http://x/a_b_c\<close> as it is, and the single-underscore pass
  then writes \<^verbatim>\<open><em>\<close> into the \<^verbatim>\<open>href\<close>; in an image the same pass joins the
  \<^verbatim>\<open>src\<close> and the \<^verbatim>\<open>alt\<close> attribute. In the third document the image pass emits
  \<^verbatim>\<open><img src="x[b](http://y onerror=z" alt="a">\<close> and leaves a closing parenthesis; the
  link pass then finds a link from \<^verbatim>\<open>[b]\<close> to that parenthesis, whose URL holds the
  double quotes of the tag, and puts an \<^verbatim>\<open><a>\<close> tag inside the \<^verbatim>\<open>src\<close> attribute: the
  text \<^verbatim>\<open>onerror=z\<close> of the input stands outside every quoted value of the
  \<^verbatim>\<open><img>\<close> tag.
\<close>

theorem parse_rewrites_emitted_url:
  \<open>sanitizeUrl (js ''http://x/a_b_c'') = js ''http://x/a_b_c'' \<and>
   parse (\<lambda>i. js ''MTIzZTQ1NjctZTg5Yi00MmQzLWE0NTYtNDI2NjE0MTc0MDAw'') (js ''[t](http://x/a_b_c)'') =
     js ''<a href="http://x/a<em>b</em>c">t</a>'' \<and>
   sanitizeUrl (js ''c_d.png'') = js ''c_d.png'' \<and>
   parse (\<lambda>i. js ''MTIzZTQ1NjctZTg5Yi00MmQzLWE0NTYtNDI2NjE0MTc0MDAw'') (js ''![a_b](c_d.png)'') =
     js ''<img src="c<em>d.png" alt="a</em>b">'' \<and>
   sanitizeUrl (js ''x[b](http://y onerror=z'') = js ''x[b](http://y onerror=z'' \<and>
   parseImages (js ''![a](x[b](http://y onerror=z))'') =
     js ''<img src="x[b](http://y onerror=z" alt="a">)'' \<and>
   parse (\<lambda>i. js ''MTIzZTQ1NjctZTg5Yi00MmQzLWE0NTYtNDI2NjE0MTc0MDAw'')
       (js ''![a](x[b](http://y onerror=z))'') =
     js ''<img src="x<a href="http://y onerror=z" alt="a">">b</a>''\<close>
  by code_simp

section \<open>The converter and the highlighter on concrete documents\<close>

text \<open>
  Claim C6: the first step of \<^verbatim>\<open>parse\<close> escapes the five metacharacters, the
  apostrophe to \<^verbatim>\<open>&#039;\<close>. The table of \<^verbatim>\<open>MarkdownParser.escapeHtml\<close> maps the
  apostrophe to \<^verbatim>\<open>&#039\<close>, without the semicolon; the table of
  \<^verbatim>\<open>SyntaxHighlighter.escapeHtml\<close> has the semicolon. The document is a single
  apostrophe.
\<close>

theorem parse_apostrophe_entity:
  "escapeHtml [39] = js ''&#039'' \<and>
   parse ids [39] = js ''<p>&#039</p>'' \<and>
   hl_escapeHtml [39] = js ''&#039;''"
  by code_simp

text \<open>
  Claim C7: consecutive lines that start with \<^verbatim>\<open>"> "\<close> become one
  \<^verbatim>\<open><blockquote>\<close>. \<^verbatim>\<open>parseBlockquotes\<close> does so on the lines it is given, but
  \<^verbatim>\<open>parse\<close> runs \<^verbatim>\<open>escapeHtml\<close> first, which turns every \<^verbatim>\<open>>\<close> into
  \<^verbatim>\<open>&gt;\<close>: no line of the document starts with \<^verbatim>\<open>"> "\<close> any more and no
  \<^verbatim>\<open><blockquote>\<close> is produced.
\<close>

theorem parse_blockquote_lines:
  "parseBlockquotes (js ''> a\<newline>> b'') = js ''<blockquote>a\<newline>b</blockquote>'' \<and>
   parse ids (js ''> a\<newline>> b'') = js ''&gt; a\<newline>&gt; b'' \<and>
   parse ids (js ''> a'') = js ''<p>&gt; a</p>''"
  by code_simp

text \<open>
  Claim C8: \<^verbatim>\<open>parse\<close> leaves the block \<^verbatim>\<open><div>x</div>\<close> without a
  \<^verbatim>\<open><p>\<close> around it. \<^verbatim>\<open>parseParagraphs\<close> does so on the block it is given, but
  \<^verbatim>\<open>parse\<close> has escaped the \<^verbatim>\<open><\<close> before: the block reaches
  \<^verbatim>\<open>parseParagraphs\<close> as \<^verbatim>\<open>&lt;div&gt;x&lt;/div&gt;\<close> and is wrapped.
\<close>

theorem parse_div_block:
  "parseParagraphs (js ''<div>x</div>'') = js ''<div>x</div>'' \<and>
   parse ids (js ''<div>x</div>'') = js ''<p>&lt;div&gt;x&lt;/div&gt;</p>''"
  by code_simp

text \<open>
  Claim C2: every placeholder is replaced by its stored content before \<^verbatim>\<open>parse\<close>
  and \<^verbatim>\<open>highlight\<close> return, and none is left in the result. In \<^verbatim>\<open>parse\<close> the
  single-underscore emphasis pass runs between extraction and restoration and matches
  \<^verbatim>\<open>_CODE_\<close> and \<^verbatim>\<open>_<id>_\<close> inside \<^verbatim>\<open>__CODE_BLOCK_<id>__\<close>, so
  \<^verbatim>\<open>restoreCodeBlocks\<close> finds nothing to replace. In \<^verbatim>\<open>highlight\<close> the
  single-underscore pass of \<^verbatim>\<open>extractInlineFormats\<close> matches \<^verbatim>\<open>_INLINE_\<close> and
  \<^verbatim>\<open>_0_\<close> inside \<^verbatim>\<open>__INLINE_FORMAT_0__\<close>, so the first placeholder is never
  restored. The identifier is the Base64 form of a UUID, as \<^verbatim>\<open>generatePlaceholder\<close>
  builds it.
\<close>

theorem placeholders_left_in_output:
  \<open>parse (\<lambda>i. js ''MTIzZTQ1NjctZTg5Yi00MmQzLWE0NTYtNDI2NjE0MTc0MDAw'') (js ''```\<newline>a\<newline>```'') =
     js ''<p>_<em>CODE</em>BLOCK<em>MTIzZTQ1NjctZTg5Yi00MmQzLWE0NTYtNDI2NjE0MTc0MDAw</em>_</p>'' \<and>
   highlight (js ''**a**'') =
     js ''_<span class="syntax-italic">_INLINE_</span>FORMAT<span class="syntax-italic">_0_</span>_''\<close>
  by code_simp

text \<open>
  Claim C3: for a text \<open>T\<close> without three backticks in a row, \<^verbatim>\<open>parse\<close> of
  \<open>T\<close> between two fence lines contains \<open>T\<close>, escaped once, inside
  \<^verbatim>\<open><pre><code>\<close>. For every such \<open>T\<close> and every identifier that is not empty and
  is written in the alphabet of \<^verbatim>\<open>generatePlaceholder\<close>, the result is what the
  single-underscore pass leaves of the placeholder, inside a paragraph: it does not
  depend on \<open>T\<close> and holds no \<^verbatim>\<open><pre><code>\<close>.
\<close>

theorem parse_fence_lost:
  assumes "\<not> includesStr T (js ''```'')"
    and "ids 0 \<noteq> []" and "\<forall>c\<in>set (ids 0). isIdentChar c"
  shows "parse ids (js ''```\<newline>'' @ T @ js ''\<newline>```'') =
           js ''<p>_<em>CODE</em>BLOCK<em>'' @ ids 0 @ js ''</em>_</p>'' \<and>
         \<not> includesStr (parse ids (js ''```\<newline>'' @ T @ js ''\<newline>```''))
             (js ''<pre><code>'')"
proof -
  have "\<not> includesStr T [96, 96, 96]" using assms(1) by (simp add: js_def)
  then have "parse ids ([96, 96, 96, 10] @ T @ [10, 96, 96, 96]) =
           js ''<p>_<em>CODE</em>BLOCK<em>'' @ ids 0 @ js ''</em>_</p>''"
    using assms(2,3) by (rule parse_fenced)
  then have p: "parse ids (js ''```\<newline>'' @ T @ js ''\<newline>```'') =
           js ''<p>_<em>CODE</em>BLOCK<em>'' @ ids 0 @ js ''</em>_</p>''"
    by (simp add: js_def)
  have "60 \<notin> set (ids 0)" using assms(3) identChar_not_lt by blast
  then have "\<not> includesStr (js ''<p>_<em>CODE</em>BLOCK<em>'' @ ids 0 @ js ''</em>_</p>'')
           (js ''<pre><code>'')"
    by (rule no_pre_in_residue)
  with p show ?thesis by simp
qed

theorem parse_fence_lost_witness:
  "parse (\<lambda>i. js ''MTIzZTQ1NjctZTg5Yi00MmQzLWE0NTYtNDI2NjE0MTc0MDAw'')
     (js ''```\<newline>1 < 2\<newline>```'') =
     js ''<p>_<em>CODE</em>BLOCK<em>MTIzZTQ1NjctZTg5Yi00MmQzLWE0NTYtNDI2NjE0MTc0MDAw</em>_</p>''"
proof -
  have t: "\<not> includesStr (js ''1 < 2'') (js ''```'')"
    by (simp add: js_def)
  have i: "\<forall>c\<in>set (js ''MTIzZTQ1NjctZTg5Yi00MmQzLWE0NTYtNDI2NjE0MTc0MDAw''). isIdentChar c"
    by (simp add: js_def isIdentChar_def isAlnum_def isAlpha_def isDigit_def)
  have n: "js ''MTIzZTQ1NjctZTg5Yi00MmQzLWE0NTYtNDI2NjE0MTc0MDAw'' \<noteq> []"
    by (simp add: js_def)
  show ?thesis
    using parse_fence_lost [of "js ''1 < 2''"
        "\<lambda>i. js ''MTIzZTQ1NjctZTg5Yi00MmQzLWE0NTYtNDI2NjE0MTc0MDAw''", OF t n i]
    by (simp add: js_def)
qed

text \<open>
  Claim C9: \<^verbatim>\<open>highlight\<close> keeps every character of its input, so that removing the
  spans and decoding the entities gives the input back. On \<^verbatim>\<open>*a*\<close> the result holds
  the pieces of the placeholder \<^verbatim>\<open>__INLINE_FORMAT_0__\<close> and not the input; on a header
  with two spaces after the \<^verbatim>\<open>#\<close> one space is lost.
\<close>

theorem highlight_loses_input:
  \<open>highlight (js ''*a*'') =
     js ''_<span class="syntax-italic">_INLINE_</span>FORMAT<span class="syntax-italic">_0_</span>_'' \<and>
   spec_decodeEntities (spec_stripSpans (highlight (js ''*a*''))) = js ''__INLINE_FORMAT_0__'' \<and>
   spec_decodeEntities (spec_stripSpans (highlight (js ''#  T''))) = js ''# T''\<close>
  by code_simp

end
